theory Spec2Isabelle
  imports Complex_Main "HOL-Library.Word"
begin

section \<open>gzhttp: the buffering, deciding response writer of gzip.go\<close>

text \<open>
  The development embeds \<^verbatim>\<open>gzhttp/gzip.go\<close>: the \<^verbatim>\<open>GzipResponseWriter\<close> with its methods
  \<^verbatim>\<open>Write\<close>, \<^verbatim>\<open>startGzip\<close>, \<^verbatim>\<open>startPlain\<close>, \<^verbatim>\<open>WriteHeader\<close>, \<^verbatim>\<open>Close\<close> and \<^verbatim>\<open>Flush\<close>, the helper
  \<^verbatim>\<open>atoi\<close>, and the request gate \<^verbatim>\<open>acceptsGzip\<close> with \<^verbatim>\<open>parseEncodingGzip\<close> and
  \<^verbatim>\<open>parseCoding\<close>.

  What the Go code receives from outside the repository is kept outside the model:
  \<^item> the underlying \<^verbatim>\<open>http.ResponseWriter\<close> (the sink) and the \<^verbatim>\<open>writer.GzipWriter\<close> (the
    compressor) are interfaces. Every call the writer makes on them is appended to a log,
    and what they answer is read from an environment, by the position of the call in the
    log and the bytes handed over, so that any deterministic sink and compressor is an
    environment;
  \<^item> \<^verbatim>\<open>http.DetectContentType\<close> and \<^verbatim>\<open>strconv.ParseFloat\<close> are parameters.
\<close>

subsection \<open>Bytes, headers, errors\<close>

type_synonym byte = "8 word"
type_synonym bytes = "byte list"

text \<open>\<^verbatim>\<open>http.Header\<close> is \<^verbatim>\<open>map[string][]string\<close>.\<close>

type_synonym header = "string \<rightharpoonup> string list"

abbreviation HeaderNoCompression :: string where "HeaderNoCompression \<equiv> ''No-Gzip-Compression''"
abbreviation vary :: string where "vary \<equiv> ''Vary''"
abbreviation acceptEncoding :: string where "acceptEncoding \<equiv> ''Accept-Encoding''"
abbreviation contentEncoding :: string where "contentEncoding \<equiv> ''Content-Encoding''"
abbreviation contentRange :: string where "contentRange \<equiv> ''Content-Range''"
abbreviation acceptRanges :: string where "acceptRanges \<equiv> ''Accept-Ranges''"
abbreviation contentType :: string where "contentType \<equiv> ''Content-Type''"
abbreviation contentLength :: string where "contentLength \<equiv> ''Content-Length''"

text \<open>
  \<^verbatim>\<open>len(h[k])\<close>, \<^verbatim>\<open>h.Get(k)\<close>, \<^verbatim>\<open>h.Set(k, v)\<close>, \<^verbatim>\<open>h.Del(k)\<close> and \<^verbatim>\<open>h.Add(k, v)\<close>. The methods
  canonicalise their key; every key gzip.go passes is one of the constants above, which
  are in canonical form already, so the key is used as it is.
\<close>

definition hlen :: "header \<Rightarrow> string \<Rightarrow> nat" where
  "hlen h k = (case h k of None \<Rightarrow> 0 | Some vs \<Rightarrow> length vs)"

definition hget :: "header \<Rightarrow> string \<Rightarrow> string" where
  "hget h k = (case h k of None \<Rightarrow> [] | Some [] \<Rightarrow> [] | Some (v # _) \<Rightarrow> v)"

definition hset :: "header \<Rightarrow> string \<Rightarrow> string \<Rightarrow> header" where
  "hset h k v = h(k \<mapsto> [v])"

definition hdel :: "header \<Rightarrow> string \<Rightarrow> header" where
  "hdel h k = h(k := None)"

definition hadd :: "header \<Rightarrow> string \<Rightarrow> string \<Rightarrow> header" where
  "hadd h k v = h(k \<mapsto> (case h k of None \<Rightarrow> [] | Some vs \<Rightarrow> vs) @ [v])"

text \<open>
  Go errors. \<open>External m\<close> is an error value made by the sink or the compressor, named by
  its message; \<open>ErrShortWrite\<close> is \<^verbatim>\<open>io.ErrShortWrite\<close>; \<open>CloseErrorf m\<close> is the value
  \<^verbatim>\<open>fmt.Errorf("gziphandler: write to regular responseWriter at close gets error: %q", m)\<close>
  that \<^verbatim>\<open>Close\<close> builds from the message \<open>m\<close> of another error; \<open>EmptyContentCoding\<close> is
  \<^verbatim>\<open>fmt.Errorf("empty content-coding")\<close> of \<^verbatim>\<open>parseCoding\<close>.
\<close>

datatype error = External string | ErrShortWrite | CloseErrorf string | EmptyContentCoding

text \<open>\<^verbatim>\<open>err.Error()\<close>; the escapes that \<^verbatim>\<open>%q\<close> adds inside the quotes are not spelled out.\<close>

fun Error :: "error \<Rightarrow> string" where
  "Error (External m) = m"
| "Error ErrShortWrite = ''short write''"
| "Error (CloseErrorf m) =
     ''gziphandler: write to regular responseWriter at close gets error: '' @ [CHR 0x22] @ m @ [CHR 0x22]"
| "Error EmptyContentCoding = ''empty content-coding''"

subsection \<open>atoi\<close>

text \<open>\<^verbatim>\<open>const intSize = 32 << (^uint(0) >> 63)\<close>, on a 64-bit platform.\<close>

definition intSize :: nat where
  "intSize = 64"

text \<open>
  The digit loop of the fast path: \<^verbatim>\<open>ch -= '0'\<close> is byte arithmetic and wraps, so every
  byte below \<^verbatim>\<open>'0'\<close> ends above 9 as well.
\<close>

fun atoi_digits :: "string \<Rightarrow> int \<Rightarrow> int \<times> bool" where
  "atoi_digits [] n = (n, True)"
| "atoi_digits (c # cs) n =
     (let ch = (of_char c :: byte) - 48
      in if ch > 9 then (0, False) else atoi_digits cs (n * 10 + uint ch))"

text \<open>
  \<^verbatim>\<open>strconv.ParseInt(s, 10, 0)\<close> of the Go library, with \<^verbatim>\<open>strconv.ParseUint\<close> under it, for
  base 10 and 64 bits. \<open>ParseUint_digits\<close> is the loop of \<^verbatim>\<open>ParseUint\<close> over the bytes: a
  byte that is no decimal digit is a syntax error (with base 10 given, an underscore
  is one too); it returns at the first overflow of \<^verbatim>\<open>uint64\<close> with the range error,
  before it looks at the bytes after it.
\<close>

datatype numError = NoError | ErrSyntax | ErrRange

definition maxUint64 :: int where
  "maxUint64 = 2 ^ 64 - 1"

fun ParseUint_digits :: "string \<Rightarrow> int \<Rightarrow> int \<times> numError" where
  "ParseUint_digits [] n = (n, NoError)"
| "ParseUint_digits (c # cs) n =
     (if (48::int) \<le> of_char c \<and> of_char c \<le> (57::int)
      then if n \<ge> maxUint64 div 10 + 1 then (maxUint64, ErrRange)
           else let n1 = n * 10 + (of_char c - 48)
                in if n1 > maxUint64 then (maxUint64, ErrRange) else ParseUint_digits cs n1
      else (0, ErrSyntax))"

definition ParseUint :: "string \<Rightarrow> int \<times> numError" where
  "ParseUint s = (if s = [] then (0, ErrSyntax) else ParseUint_digits s 0)"

text \<open>The result of \<open>ParseInt\<close> is paired with \<^verbatim>\<open>err == nil\<close>, which is what \<^verbatim>\<open>atoi\<close> returns.\<close>

definition ParseInt :: "string \<Rightarrow> int \<times> bool" where
  "ParseInt s =
     (if s = [] then (0, False)
      else
        let neg = (hd s = CHR ''-'');
            s1 = (if hd s = CHR ''+'' \<or> hd s = CHR ''-'' then tl s else s)
        in case ParseUint s1 of
             (un, ErrSyntax) \<Rightarrow> (0, False)
           | (un, _) \<Rightarrow>
               if \<not> neg \<and> un \<ge> 2 ^ 63 then (2 ^ 63 - 1, False)
               else if neg \<and> un > 2 ^ 63 then (- (2 ^ 63), False)
               else (if neg then - un else un, True))"

definition atoi :: "string \<Rightarrow> int \<times> bool" where
  "atoi s =
     (let sLen = length s
      in if intSize = 32 \<and> (0 < sLen \<and> sLen < 10) \<or> intSize = 64 \<and> (0 < sLen \<and> sLen < 19)
         then
           let s0 = s;
               signed = (hd s = CHR ''-'' \<or> hd s = CHR ''+'');
               s1 = (if signed then tl s else s)
           in if signed \<and> length s1 < 1 then (0, False)
              else case atoi_digits s1 0 of
                     (n, False) \<Rightarrow> (0, False)
                   | (n, True) \<Rightarrow> (if hd s0 = CHR ''-'' then - n else n, True)
         else ParseInt s)"

subsection \<open>The sink, the compressor and the writer\<close>

text \<open>
  The calls the writer makes: on the sink \<^verbatim>\<open>WriteHeader(code)\<close>, \<^verbatim>\<open>Write(p)\<close> and \<^verbatim>\<open>Flush()\<close>;
  on the compressor factory \<^verbatim>\<open>New(sink, level)\<close>; on the compressor \<^verbatim>\<open>Write(p)\<close>, \<^verbatim>\<open>Flush()\<close>
  and \<^verbatim>\<open>Close()\<close>. The gzip codec is outside the repository: the bytes the compressor
  hands on to the sink are not modelled, only the bytes it is given.
\<close>

datatype event =
    RW_WriteHeader int
  | RW_Write bytes
  | RW_Flush
  | GW_New int
  | GW_Write bytes
  | GW_Flush
  | GW_Close

text \<open>
  The environment: the content sniffer, what the sink's and the compressor's \<^verbatim>\<open>Write\<close>
  return (a count and an error) and what the compressor's \<^verbatim>\<open>Close\<close> returns, each as the
  call at a position of the log, and whether the sink is an \<^verbatim>\<open>http.Flusher\<close>.
\<close>

record env =
  DetectContentType :: "bytes \<Rightarrow> string"
  sinkWrite :: "nat \<Rightarrow> bytes \<Rightarrow> int \<times> error option"
  sinkFlusher :: bool
  gzWrite :: "nat \<Rightarrow> bytes \<Rightarrow> int \<times> error option"
  gzClose :: "nat \<Rightarrow> error option"

datatype GzipWriter = GzipWriter int

text \<open>
  \<^verbatim>\<open>type GzipResponseWriter struct\<close>. The embedded \<^verbatim>\<open>http.ResponseWriter\<close> is the three
  fields \<open>hdr\<close> (its header map, \<^verbatim>\<open>w.Header()\<close>), \<open>calls\<close> (the log) and \<open>wire\<close>. By the
  contract of \<^verbatim>\<open>http.ResponseWriter\<close> the status line and the headers leave with the first
  \<^verbatim>\<open>WriteHeader\<close>, or with the first \<^verbatim>\<open>Write\<close> as an implicit \<^verbatim>\<open>WriteHeader(200)\<close>, and a change
  of the header map after that has no effect: \<open>wire\<close> holds the status and the header map
  of that moment, for the \<^verbatim>\<open>WriteHeader\<close> and \<^verbatim>\<open>Write\<close> calls the writer itself makes on the
  sink. The field \<^verbatim>\<open>gwFactory\<close> has no counterpart: the compressor it makes is the
  environment's, and its \<^verbatim>\<open>New\<close> is an entry of the log.
\<close>

record GzipResponseWriter =
  hdr :: header
  wire :: "(int \<times> header) option"
  calls :: "event list"
  level :: int
  gw :: "GzipWriter option"
  code :: int
  minSize :: int
  buf :: bytes
  ignore :: bool
  keepAcceptRanges :: bool
  contentTypeFilter :: "string \<Rightarrow> bool"

definition rw_WriteHeader :: "GzipResponseWriter \<Rightarrow> int \<Rightarrow> GzipResponseWriter" where
  "rw_WriteHeader w c =
     w\<lparr>calls := calls w @ [RW_WriteHeader c],
       wire := (case wire w of None \<Rightarrow> Some (c, hdr w) | Some x \<Rightarrow> Some x)\<rparr>"

definition rw_Write ::
  "env \<Rightarrow> GzipResponseWriter \<Rightarrow> bytes \<Rightarrow> (int \<times> error option) \<times> GzipResponseWriter" where
  "rw_Write e w p =
     (sinkWrite e (length (calls w)) p,
      w\<lparr>calls := calls w @ [RW_Write p],
        wire := (case wire w of None \<Rightarrow> Some (200, hdr w) | Some x \<Rightarrow> Some x)\<rparr>)"

definition rw_Flush :: "GzipResponseWriter \<Rightarrow> GzipResponseWriter" where
  "rw_Flush w = w\<lparr>calls := calls w @ [RW_Flush]\<rparr>"

definition gw_Write ::
  "env \<Rightarrow> GzipResponseWriter \<Rightarrow> bytes \<Rightarrow> (int \<times> error option) \<times> GzipResponseWriter" where
  "gw_Write e w p = (gzWrite e (length (calls w)) p, w\<lparr>calls := calls w @ [GW_Write p]\<rparr>)"

definition gw_Flush :: "GzipResponseWriter \<Rightarrow> GzipResponseWriter" where
  "gw_Flush w = w\<lparr>calls := calls w @ [GW_Flush]\<rparr>"

text \<open>\<^verbatim>\<open>func (w *GzipResponseWriter) init()\<close>\<close>

definition init :: "GzipResponseWriter \<Rightarrow> GzipResponseWriter" where
  "init w = w\<lparr>gw := Some (GzipWriter (level w)), calls := calls w @ [GW_New (level w)]\<rparr>"

text \<open>\<^verbatim>\<open>func (w *GzipResponseWriter) WriteHeader(code int)\<close>\<close>

definition WriteHeader :: "GzipResponseWriter \<Rightarrow> int \<Rightarrow> GzipResponseWriter" where
  "WriteHeader w c = (if code w = 0 then w\<lparr>code := c\<rparr> else w)"

text \<open>The block \<^verbatim>\<open>if w.code != 0 { w.ResponseWriter.WriteHeader(w.code); w.code = 0 }\<close>.\<close>

definition flushCode :: "GzipResponseWriter \<Rightarrow> GzipResponseWriter" where
  "flushCode w = (if code w \<noteq> 0 then (rw_WriteHeader w (code w))\<lparr>code := 0\<rparr> else w)"

text \<open>\<^verbatim>\<open>func (w *GzipResponseWriter) startGzip() error\<close>\<close>

definition startGzip :: "env \<Rightarrow> GzipResponseWriter \<Rightarrow> error option \<times> GzipResponseWriter" where
  "startGzip e w =
     (let w1 = w\<lparr>hdr := hset (hdr w) contentEncoding ''gzip''\<rparr>;
          w2 = w1\<lparr>hdr := hdel (hdr w1) contentLength\<rparr>;
          w3 = (if \<not> keepAcceptRanges w2 then w2\<lparr>hdr := hdel (hdr w2) acceptRanges\<rparr> else w2);
          w4 = flushCode w3
      in if length (buf w4) > 0
         then
           let w5 = init w4;
               ((n, err), w6) = gw_Write e w5 (buf w5);
               err' = (if err = None \<and> n < int (length (buf w6)) then Some ErrShortWrite else err)
           in (err', w6\<lparr>buf := []\<rparr>)
         else (None, w4))"

text \<open>\<^verbatim>\<open>func (w *GzipResponseWriter) startPlain() error\<close>\<close>

definition startPlain :: "env \<Rightarrow> GzipResponseWriter \<Rightarrow> error option \<times> GzipResponseWriter" where
  "startPlain e w =
     (let w1 = flushCode w;
          w2 = w1\<lparr>hdr := (hdr w1)(HeaderNoCompression := None)\<rparr>;
          w3 = w2\<lparr>ignore := True\<rparr>
      in if length (buf w3) = 0 then (None, w3)
         else
           let ((n, err), w4) = rw_Write e w3 (buf w3);
               err' = (if err = None \<and> n < int (length (buf w4)) then Some ErrShortWrite else err)
           in (err', w4\<lparr>buf := []\<rparr>))"

text \<open>
  \<^verbatim>\<open>func (w *GzipResponseWriter) Write(b []byte) (int, error)\<close>. A Go panic is \<open>None\<close>: the
  slice \<^verbatim>\<open>b[:toAdd]\<close> with a negative \<^verbatim>\<open>toAdd\<close>, and the call \<^verbatim>\<open>w.gw.Write(remain)\<close> on a nil
  \<^verbatim>\<open>w.gw\<close>. The two tails of the function are definitions of their own: \<open>writeGzip\<close> is the
  block under \<^verbatim>\<open>if w.contentTypeFilter(ct)\<close>, \<open>writePlain\<close> is the code from
  \<^verbatim>\<open>// If we got here, we should not GZIP this response.\<close> to the end.
\<close>

definition writeGzip ::
  "env \<Rightarrow> GzipResponseWriter \<Rightarrow> bytes \<Rightarrow> bytes \<Rightarrow> ((int \<times> error option) \<times> GzipResponseWriter) option"
  where
  "writeGzip e w b remain =
     (case startGzip e w of
        (Some err, w1) \<Rightarrow> Some ((0, Some err), w1)
      | (None, w1) \<Rightarrow>
          if length remain > 0
          then (if gw w1 = None then None
                else case gw_Write e w1 remain of
                       ((n, Some err), w2) \<Rightarrow> Some ((0, Some err), w2)
                     | ((n, None), w2) \<Rightarrow> Some ((int (length b), None), w2))
          else Some ((int (length b), None), w1))"

definition writePlain ::
  "env \<Rightarrow> GzipResponseWriter \<Rightarrow> bytes \<Rightarrow> bytes \<Rightarrow> ((int \<times> error option) \<times> GzipResponseWriter) option"
  where
  "writePlain e w b remain =
     (case startPlain e w of
        (Some err, w1) \<Rightarrow> Some ((0, Some err), w1)
      | (None, w1) \<Rightarrow>
          if length remain > 0
          then (case rw_Write e w1 remain of
                  ((n, Some err), w2) \<Rightarrow> Some ((0, Some err), w2)
                | ((n, None), w2) \<Rightarrow> Some ((int (length b), None), w2))
          else Some ((int (length b), None), w1))"

definition Write ::
  "env \<Rightarrow> GzipResponseWriter \<Rightarrow> bytes \<Rightarrow> ((int \<times> error option) \<times> GzipResponseWriter) option"
  where
  "Write e w b =
     (if gw w \<noteq> None then Some (gw_Write e w b)
      else if ignore w then Some (rw_Write e w b)
      else
        let wantBuf = (if minSize w > 512 then minSize w else 512);
            toAdd = (if int (length (buf w)) + int (length b) > wantBuf
                     then wantBuf - int (length (buf w)) else int (length b))
        in if toAdd < 0 then None
           else
             let w1 = w\<lparr>buf := buf w @ take (nat toAdd) b\<rparr>;
                 remain = drop (nat toAdd) b
             in if hlen (hdr w1) HeaderNoCompression = 0 \<and> hget (hdr w1) contentEncoding = []
                     \<and> hget (hdr w1) contentRange = []
                then
                  let cl = fst (atoi (hget (hdr w1) contentLength));
                      ct = hget (hdr w1) contentType
                  in if cl = 0 \<or> cl \<ge> minSize w1 \<and> (ct = [] \<or> contentTypeFilter w1 ct)
                     then
                       if int (length (buf w1)) < minSize w1 \<and> cl = 0
                       then Some ((int (length b), None), w1)
                       else if cl \<ge> minSize w1 \<or> int (length (buf w1)) \<ge> minSize w1
                       then
                         let ct' = (if ct = [] then DetectContentType e (buf w1) else ct);
                             w2 = (if hdr w1 contentType = None
                                   then w1\<lparr>hdr := hset (hdr w1) contentType ct'\<rparr> else w1)
                         in if contentTypeFilter w2 ct' then writeGzip e w2 b remain
                            else writePlain e w2 b remain
                       else writePlain e w1 b remain
                     else writePlain e w1 b remain
                else writePlain e w1 b remain)"

text \<open>
  \<^verbatim>\<open>func (w *GzipResponseWriter) Close() error\<close>. The error of \<^verbatim>\<open>startPlain\<close> is not returned
  as it is: \<^verbatim>\<open>fmt.Errorf\<close> makes a new error from its message.
\<close>

definition Close :: "env \<Rightarrow> GzipResponseWriter \<Rightarrow> error option \<times> GzipResponseWriter" where
  "Close e w =
     (if ignore w then (None, w)
      else if gw w = None
      then (case startPlain e w of
              (None, w1) \<Rightarrow> (None, w1)
            | (Some err, w1) \<Rightarrow> (Some (CloseErrorf (Error err)), w1))
      else (gzClose e (length (calls w)), w\<lparr>calls := calls w @ [GW_Close], gw := None\<rparr>))"

text \<open>
  \<^verbatim>\<open>func (w *GzipResponseWriter) Flush()\<close>. It returns nothing: the errors of \<^verbatim>\<open>startGzip\<close>,
  \<^verbatim>\<open>startPlain\<close> and of the compressor's \<^verbatim>\<open>Flush\<close> are dropped. \<open>flushDecide\<close> is the body of
  \<^verbatim>\<open>if w.gw == nil && !w.ignore\<close> after its early return, \<open>flushForward\<close> the two
  statements after that block.
\<close>

definition flushDecide :: "env \<Rightarrow> GzipResponseWriter \<Rightarrow> GzipResponseWriter" where
  "flushDecide e w =
     (let cl = fst (atoi (hget (hdr w) contentLength));
          ct = hget (hdr w) contentType;
          ce = hget (hdr w) contentEncoding;
          cr = hget (hdr w) contentRange;
          ct' = (if ct = [] then DetectContentType e (buf w) else ct);
          w1 = (if ct = [] \<and> hdr w contentType = None
                then w\<lparr>hdr := hset (hdr w) contentType ct'\<rparr> else w);
          cl' = (if cl = 0 then minSize w1 else cl)
      in if hlen (hdr w1) HeaderNoCompression = 0 \<and> ce = [] \<and> cr = [] \<and> cl' \<ge> minSize w1
              \<and> contentTypeFilter w1 ct'
         then snd (startGzip e w1)
         else snd (startPlain e w1))"

definition flushForward :: "env \<Rightarrow> GzipResponseWriter \<Rightarrow> GzipResponseWriter" where
  "flushForward e w =
     (let w1 = (if gw w \<noteq> None then gw_Flush w else w)
      in if sinkFlusher e then rw_Flush w1 else w1)"

definition Flush :: "env \<Rightarrow> GzipResponseWriter \<Rightarrow> GzipResponseWriter" where
  "Flush e w =
     (if gw w = None \<and> \<not> ignore w
      then (if length (buf w) = 0 then w else flushForward e (flushDecide e w))
      else flushForward e w)"

subsection \<open>The handler's calls and the construction of the writer\<close>

text \<open>\<^verbatim>\<open>type config struct\<close>, without the compressor factory.\<close>

record config =
  cfg_minSize :: int
  cfg_level :: int
  cfg_contentTypes :: "string \<Rightarrow> bool"
  cfg_keepAcceptRanges :: bool

text \<open>
  The composite literal of \<^verbatim>\<open>NewWrapper\<close>, after \<^verbatim>\<open>w.Header().Add(vary, acceptEncoding)\<close> on
  the sink's header map \<open>h\<close>, with the pooled buffer cut to length 0.
\<close>

definition newWriter :: "config \<Rightarrow> header \<Rightarrow> GzipResponseWriter" where
  "newWriter c h =
     \<lparr>hdr = hadd h vary acceptEncoding, wire = None, calls = [],
      level = cfg_level c, gw = None, code = 0, minSize = cfg_minSize c, buf = [],
      ignore = False, keepAcceptRanges = cfg_keepAcceptRanges c,
      contentTypeFilter = cfg_contentTypes c\<rparr>"

text \<open>
  What a handler does with the writer it is given: the four methods, and assignments to
  and deletions from the header map \<^verbatim>\<open>w.Header()\<close>.
\<close>

datatype call =
    CallWriteHeader int
  | CallWrite bytes
  | CallFlush
  | CallClose
  | SetHeader string "string list"
  | DelHeader string

fun step :: "env \<Rightarrow> GzipResponseWriter \<Rightarrow> call \<Rightarrow> GzipResponseWriter option" where
  "step e w (CallWriteHeader c) = Some (WriteHeader w c)"
| "step e w (CallWrite b) = map_option snd (Write e w b)"
| "step e w CallFlush = Some (Flush e w)"
| "step e w CallClose = Some (snd (Close e w))"
| "step e w (SetHeader k vs) = Some (w\<lparr>hdr := (hdr w)(k \<mapsto> vs)\<rparr>)"
| "step e w (DelHeader k) = Some (w\<lparr>hdr := (hdr w)(k := None)\<rparr>)"

fun run :: "env \<Rightarrow> GzipResponseWriter \<Rightarrow> call list \<Rightarrow> GzipResponseWriter option" where
  "run e w [] = Some w"
| "run e w (c # cs) = (case step e w c of None \<Rightarrow> None | Some w' \<Rightarrow> run e w' cs)"

text \<open>Readings of the log: the bytes given to the compressor, the bytes given to the sink.\<close>

fun gzBytes :: "event list \<Rightarrow> bytes" where
  "gzBytes [] = []"
| "gzBytes (GW_Write p # evs) = p @ gzBytes evs"
| "gzBytes (_ # evs) = gzBytes evs"

fun sinkBytes :: "event list \<Rightarrow> bytes" where
  "sinkBytes [] = []"
| "sinkBytes (RW_Write p # evs) = p @ sinkBytes evs"
| "sinkBytes (_ # evs) = sinkBytes evs"

fun isWriteHeader :: "event \<Rightarrow> bool" where
  "isWriteHeader (RW_WriteHeader _) = True"
| "isWriteHeader _ = False"

text \<open>A sink and a compressor that take every byte and never fail.\<close>

definition okEnv :: "(bytes \<Rightarrow> string) \<Rightarrow> bool \<Rightarrow> env" where
  "okEnv d f =
     \<lparr>DetectContentType = d, sinkWrite = (\<lambda>_ p. (int (length p), None)), sinkFlusher = f,
      gzWrite = (\<lambda>_ p. (int (length p), None)), gzClose = (\<lambda>_. None)\<rparr>"


section \<open>Notions for the statements\<close>

subsection \<open>The decision of Write, read off its code\<close>

text \<open>
  The following definitions name the parts of \<open>Write\<close> in a writer that has not decided:
  the number of bytes it appends to the buffer, the writer after the append, the bytes it
  keeps in hand, and the branch its tests choose. Lemma \<open>Write_undecided\<close> below proves
  that \<open>Write\<close> is their composition; the proofs about \<open>Write\<close> go through it.
\<close>

definition within_cap :: "GzipResponseWriter \<Rightarrow> bool" where
  "within_cap w \<longleftrightarrow> int (length (buf w)) \<le> max 512 (minSize w)"

datatype branch = Wait | Gzip | Plain

definition toAdd :: "GzipResponseWriter \<Rightarrow> bytes \<Rightarrow> nat" where
  "toAdd w b =
     (if int (length (buf w)) + int (length b) > max 512 (minSize w)
      then nat (max 512 (minSize w) - int (length (buf w))) else length b)"

definition buffered :: "GzipResponseWriter \<Rightarrow> bytes \<Rightarrow> GzipResponseWriter" where
  "buffered w b = w\<lparr>buf := buf w @ take (toAdd w b) b\<rparr>"

definition remain :: "GzipResponseWriter \<Rightarrow> bytes \<Rightarrow> bytes" where
  "remain w b = drop (toAdd w b) b"

text \<open>
  The declared \<^verbatim>\<open>Content-Length\<close> as \<open>Write\<close> and \<open>Flush\<close> read it, and the effective content
  type: the declared one, or the sniffed one where none is declared.
\<close>

definition declaredLength :: "GzipResponseWriter \<Rightarrow> int" where
  "declaredLength w = fst (atoi (hget (hdr w) contentLength))"

definition effectiveType :: "env \<Rightarrow> GzipResponseWriter \<Rightarrow> string" where
  "effectiveType e w =
     (if hget (hdr w) contentType = [] then DetectContentType e (buf w)
      else hget (hdr w) contentType)"

definition typed :: "env \<Rightarrow> GzipResponseWriter \<Rightarrow> GzipResponseWriter" where
  "typed e w =
     (if hdr w contentType = None
      then w\<lparr>hdr := hset (hdr w) contentType
                     (if hget (hdr w) contentType = [] then DetectContentType e (buf w)
                      else hget (hdr w) contentType)\<rparr>
      else w)"

definition decide :: "env \<Rightarrow> GzipResponseWriter \<Rightarrow> branch \<times> GzipResponseWriter" where
  "decide e w =
     (let cl = fst (atoi (hget (hdr w) contentLength)); ct = hget (hdr w) contentType
      in if hlen (hdr w) HeaderNoCompression = 0 \<and> hget (hdr w) contentEncoding = []
              \<and> hget (hdr w) contentRange = []
              \<and> (cl = 0 \<or> cl \<ge> minSize w \<and> (ct = [] \<or> contentTypeFilter w ct))
         then if int (length (buf w)) < minSize w \<and> cl = 0 then (Wait, w)
              else if cl \<ge> minSize w \<or> int (length (buf w)) \<ge> minSize w
              then (if contentTypeFilter w (effectiveType e w) then Gzip else Plain, typed e w)
              else (Plain, w)
         else (Plain, w))"

text \<open>
  The test of the write path: the conjunction of the conditions under which \<open>Write\<close>
  reaches \<^verbatim>\<open>w.startGzip()\<close>, as a function of the declared length \<open>cl\<close>. Lemmas
  \<open>decide_Gzip_iff\<close> and \<open>Write_compresses_iff\<close> tie it to \<open>Write\<close>.
\<close>

definition writeTest :: "env \<Rightarrow> GzipResponseWriter \<Rightarrow> int \<Rightarrow> bool" where
  "writeTest e w cl \<longleftrightarrow>
     hlen (hdr w) HeaderNoCompression = 0 \<and> hget (hdr w) contentEncoding = []
     \<and> hget (hdr w) contentRange = []
     \<and> (cl = 0 \<or> cl \<ge> minSize w
           \<and> (hget (hdr w) contentType = [] \<or> contentTypeFilter w (hget (hdr w) contentType)))
     \<and> \<not> (int (length (buf w)) < minSize w \<and> cl = 0)
     \<and> (cl \<ge> minSize w \<or> int (length (buf w)) \<ge> minSize w)
     \<and> contentTypeFilter w (effectiveType e w)"

text \<open>
  The buffer at the moment a sequence of writes \<open>bs\<close> makes the writer decide, from the
  buffer \<open>acc\<close> before them: with a declared length the first write decides, without
  one the first write that fills the buffer to \<open>m\<close> bytes (\<open>m\<close> is \<open>minSize\<close>).
\<close>

fun decisionBuf :: "int \<Rightarrow> int \<Rightarrow> bytes \<Rightarrow> bytes list \<Rightarrow> bytes" where
  "decisionBuf m cl acc [] = acc"
| "decisionBuf m cl acc (b # bs) =
     (let acc' = take (nat (max 512 m)) (acc @ b)
      in if cl = 0 \<and> int (length acc') < m then decisionBuf m cl acc' bs else acc')"

subsection \<open>Reachable writers\<close>

text \<open>
  What holds of every writer a handler can reach: the buffer is within its cap, and a
  writer with a compressor has an empty buffer and has not been set to pass through.
\<close>

definition writer_inv :: "GzipResponseWriter \<Rightarrow> bool" where
  "writer_inv w \<longleftrightarrow> within_cap w \<and> (gw w \<noteq> None \<longrightarrow> buf w = [] \<and> \<not> ignore w)"

subsection \<open>Readings of the log\<close>

text \<open>The calls a step added to the log, and the calls on a compressor or its factory.\<close>

definition newCalls :: "GzipResponseWriter \<Rightarrow> GzipResponseWriter \<Rightarrow> event list" where
  "newCalls w w' = drop (length (calls w)) (calls w')"

fun isGz :: "event \<Rightarrow> bool" where
  "isGz (GW_New _) = True"
| "isGz (GW_Write _) = True"
| "isGz GW_Flush = True"
| "isGz GW_Close = True"
| "isGz _ = False"

text \<open>
  The error the sink or the compressor returned to the call \<open>ev\<close> made at position \<open>i\<close>
  of the log, and the errors returned to a run of calls that starts at position \<open>i\<close>.
\<close>

definition callError :: "env \<Rightarrow> nat \<Rightarrow> event \<Rightarrow> error option" where
  "callError e i ev =
     (case ev of
        RW_Write p \<Rightarrow> snd (sinkWrite e i p)
      | GW_Write p \<Rightarrow> snd (gzWrite e i p)
      | GW_Close \<Rightarrow> gzClose e i
      | _ \<Rightarrow> None)"

fun callErrors :: "env \<Rightarrow> nat \<Rightarrow> event list \<Rightarrow> error list" where
  "callErrors e i [] = []"
| "callErrors e i (ev # evs) =
     (case callError e i ev of None \<Rightarrow> [] | Some x \<Rightarrow> [x]) @ callErrors e (Suc i) evs"

subsection \<open>The status code\<close>

text \<open>
  The first code other than 0 among the \<open>WriteHeader\<close> calls of a handler (a code 0
  leaves \<^verbatim>\<open>w.code == 0\<close>, so the next call records again), and the shape of a log with at
  most one status commit, made first.
\<close>

fun firstCode :: "call list \<Rightarrow> int" where
  "firstCode [] = 0"
| "firstCode (CallWriteHeader x # cs) = (if x \<noteq> 0 then x else firstCode cs)"
| "firstCode (_ # cs) = firstCode cs"

definition statusOnce :: "event list \<Rightarrow> int \<Rightarrow> bool" where
  "statusOnce evs k \<longleftrightarrow>
     filter isWriteHeader evs = []
     \<or> k \<noteq> 0 \<and> take 1 evs = [RW_WriteHeader k] \<and> filter isWriteHeader evs = [RW_WriteHeader k]"

definition statusInv :: "GzipResponseWriter \<Rightarrow> int \<Rightarrow> bool" where
  "statusInv w k \<longleftrightarrow>
     writer_inv w \<and> statusOnce (calls w) k
     \<and> (gw w = None \<and> \<not> ignore w \<longrightarrow> calls w = [] \<and> code w = k)"

fun nonEmptyWrite :: "call \<Rightarrow> bool" where
  "nonEmptyWrite (CallWrite b) = (b \<noteq> [])"
| "nonEmptyWrite _ = True"

subsection \<open>Concrete inputs\<close>

text \<open>
  A configuration with \<^verbatim>\<open>MinSize(4)\<close> and a content type filter that refuses one type; an
  environment whose sink and compressor never fail and whose sniffer answers
  \<^verbatim>\<open>text/plain; charset=utf-8\<close>; an environment whose sink and compressor fail every call
  with the same error.
\<close>

definition witCfg :: config where
  "witCfg = \<lparr>cfg_minSize = 4, cfg_level = 6, cfg_contentTypes = (\<lambda>ct. ct \<noteq> ''video/mp4''),
             cfg_keepAcceptRanges = False\<rparr>"

definition witEnv :: env where
  "witEnv = okEnv (\<lambda>_. ''text/plain; charset=utf-8'') True"

definition failEnv :: env where
  "failEnv =
     \<lparr>DetectContentType = (\<lambda>_. ''text/plain; charset=utf-8''),
      sinkWrite = (\<lambda>_ p. (0, Some (External ''broken pipe''))), sinkFlusher = True,
      gzWrite = (\<lambda>_ p. (0, Some (External ''broken pipe''))),
      gzClose = (\<lambda>_. Some (External ''broken pipe''))\<rparr>"

text \<open>
  Writers as \<^verbatim>\<open>NewWrapper\<close> makes them, on a sink whose header map holds a
  \<^verbatim>\<open>Content-Range\<close>, a \<^verbatim>\<open>Content-Length\<close> of 3, or nothing; and the last of them after a
  \<open>Write\<close> of two bytes, which waits.
\<close>

definition rangeWriter :: GzipResponseWriter where
  "rangeWriter = newWriter witCfg [contentRange \<mapsto> [''bytes 0-4/10'']]"


definition waitingWriter :: GzipResponseWriter where
  "waitingWriter = (newWriter witCfg Map.empty)\<lparr>buf := [1, 2]\<rparr>"

text \<open>A writer on a sink that declares ten bytes of \<^verbatim>\<open>text/plain\<close>.\<close>

definition declaredWriter :: GzipResponseWriter where
  "declaredWriter =
     newWriter witCfg [contentLength \<mapsto> [''10''], contentType \<mapsto> [''text/plain'']]"

text \<open>
  The writer \<open>waitingWriter\<close> after its handler has set the status 206 and then a
  \<^verbatim>\<open>Content-Range\<close>: it holds two bytes and has not decided.
\<close>

definition lateRangeWriter :: GzipResponseWriter where
  "lateRangeWriter =
     (WriteHeader waitingWriter 206)\<lparr>hdr := (hdr waitingWriter)(contentRange \<mapsto> [''bytes 0-1/10''])\<rparr>"


subsection \<open>The request gate\<close>

text \<open>
  \<^verbatim>\<open>float64\<close> values as far as \<^verbatim>\<open>parseCoding\<close> and \<^verbatim>\<open>acceptsGzip\<close> look at them: they are
  compared with 0 and 1 by \<^verbatim>\<open><\<close> and \<^verbatim>\<open>>\<close>, which are false on NaN.
\<close>

datatype float64 = NaN | NegInf | Finite real | PosInf

fun f64_less :: "float64 \<Rightarrow> float64 \<Rightarrow> bool" where
  "f64_less (Finite a) (Finite b) = (a < b)"
| "f64_less NegInf (Finite b) = True"
| "f64_less NegInf PosInf = True"
| "f64_less (Finite a) PosInf = True"
| "f64_less _ _ = False"

abbreviation DefaultQValue :: float64 where "DefaultQValue \<equiv> Finite 1"

text \<open>
  \<^verbatim>\<open>strings.TrimSpace\<close>, \<^verbatim>\<open>strings.ToLower\<close>, \<^verbatim>\<open>strings.HasPrefix\<close>,
  \<^verbatim>\<open>strings.TrimPrefix\<close>, \<^verbatim>\<open>strings.Split\<close> with a separator of one byte and
  \<^verbatim>\<open>strings.IndexByte\<close> of the Go library, on ASCII strings: on a string with a byte from
  0x80 on the first two work on Unicode code points, which is not modelled.
\<close>

definition asciiSpace :: "char \<Rightarrow> bool" where
  "asciiSpace c \<longleftrightarrow> c \<in> set [CHR 0x09, CHR 0x0A, CHR 0x0B, CHR 0x0C, CHR 0x0D, CHR '' '']"

definition TrimSpace :: "string \<Rightarrow> string" where
  "TrimSpace s = rev (dropWhile asciiSpace (rev (dropWhile asciiSpace s)))"

definition ToLower :: "string \<Rightarrow> string" where
  "ToLower s =
     map (\<lambda>c. if (65::nat) \<le> of_char c \<and> of_char c \<le> (90::nat)
               then char_of (of_char c + (32::nat)) else c) s"

definition HasPrefix :: "string \<Rightarrow> string \<Rightarrow> bool" where
  "HasPrefix s p \<longleftrightarrow> length s \<ge> length p \<and> take (length p) s = p"

definition TrimPrefix :: "string \<Rightarrow> string \<Rightarrow> string" where
  "TrimPrefix s p = (if HasPrefix s p then drop (length p) s else s)"

fun Split :: "string \<Rightarrow> char \<Rightarrow> string list" where
  "Split [] sep = [[]]"
| "Split (c # cs) sep =
     (if c = sep then [] # Split cs sep
      else case Split cs sep of x # xs \<Rightarrow> (c # x) # xs | [] \<Rightarrow> [[c]])"

fun IndexByte :: "string \<Rightarrow> char \<Rightarrow> int" where
  "IndexByte [] c = - 1"
| "IndexByte (x # xs) c =
     (if x = c then 0 else let i = IndexByte xs c in if i < 0 then - 1 else i + 1)"

text \<open>
  \<^verbatim>\<open>strconv.ParseFloat(s, 64)\<close> is a parameter: a function from the string to the value
  and the error.
\<close>

type_synonym parseFloat = "string \<Rightarrow> float64 \<times> error option"

text \<open>
  \<^verbatim>\<open>func parseCoding(s string) (coding string, qvalue float64, err error)\<close>. The loop
  \<^verbatim>\<open>for n, part := range strings.Split(s, ";")\<close> is a fold over the numbered parts;
  \<open>parseCoding_part\<close> is its body, on the three named results. The body starts with
  \<^verbatim>\<open>qvalue = DefaultQValue\<close>, in every round.
\<close>

fun parseCoding_part ::
  "parseFloat \<Rightarrow> nat \<times> string \<Rightarrow> string \<times> float64 \<times> error option
     \<Rightarrow> string \<times> float64 \<times> error option" where
  "parseCoding_part pf (n, part0) (coding, qvalue0, err) =
     (let part = TrimSpace part0;
          qvalue = DefaultQValue
      in if n = 0 then (ToLower part, qvalue, err)
         else if HasPrefix part ''q=''
         then (case pf (TrimPrefix part ''q='') of
                 (q, err') \<Rightarrow>
                   (coding,
                    if f64_less q (Finite 0) then Finite 0
                    else if f64_less (Finite 1) q then Finite 1 else q,
                    err'))
         else (coding, qvalue, err))"

definition parseCoding :: "parseFloat \<Rightarrow> string \<Rightarrow> string \<times> float64 \<times> error option" where
  "parseCoding pf s =
     (case fold (parseCoding_part pf) (enumerate 0 (Split s CHR '';'')) ([], Finite 0, None) of
        (coding, qvalue, err) \<Rightarrow>
          (coding, qvalue, if coding = [] then Some EmptyContentCoding else err))"

text \<open>
  \<^verbatim>\<open>func parseEncodingGzip(s string) float64\<close>. \<open>stopAt\<close> is
  \<^verbatim>\<open>stop := strings.IndexByte(s, ','); if stop < 0 { stop = len(s) }\<close>, and
  \<open>parseEncodingGzip_loop\<close> is the loop \<^verbatim>\<open>for len(s) > 0\<close>.
\<close>

definition stopAt :: "string \<Rightarrow> nat" where
  "stopAt s = (let stop = IndexByte s CHR '','' in if stop < 0 then length s else nat stop)"

function parseEncodingGzip_loop :: "parseFloat \<Rightarrow> string \<Rightarrow> float64" where
  "parseEncodingGzip_loop pf s =
     (if length s > 0
      then (case parseCoding pf (take (stopAt s) s) of
              (coding, qvalue, _) \<Rightarrow>
                if coding = ''gzip'' then qvalue
                else if stopAt s = length s then Finite 0
                else parseEncodingGzip_loop pf (drop (stopAt s + 1) s))
      else Finite 0)"
  by pat_completeness auto
termination
  by (relation "measure (\<lambda>(pf, s). length s)") auto

definition parseEncodingGzip :: "parseFloat \<Rightarrow> string \<Rightarrow> float64" where
  "parseEncodingGzip pf s = parseEncodingGzip_loop pf (TrimSpace s)"

text \<open>
  \<^verbatim>\<open>func acceptsGzip(r *http.Request) bool\<close>, on the two fields of the request it reads.
\<close>

record Request =
  Method :: string
  Header :: header

definition acceptsGzip :: "parseFloat \<Rightarrow> Request \<Rightarrow> bool" where
  "acceptsGzip pf r \<longleftrightarrow>
     Method r \<noteq> ''HEAD'' \<and> f64_less (Finite 0) (parseEncodingGzip pf (hget (Header r) acceptEncoding))"

text \<open>A request that refuses gzip with \<^verbatim>\<open>q=0\<close> and adds one more parameter.\<close>

definition refusedGzip :: Request where
  "refusedGzip = \<lparr>Method = ''GET'', Header = [acceptEncoding \<mapsto> [''gzip;q=0;x=1'']]\<rparr>"


section \<open>Lemmas\<close>

subsection \<open>The two commits and the calls on sink and compressor\<close>

lemma flushCode_fields [simp]:
  "buf (flushCode w) = buf w" "gw (flushCode w) = gw w" "ignore (flushCode w) = ignore w"
  "minSize (flushCode w) = minSize w" "hdr (flushCode w) = hdr w" "code (flushCode w) = 0"
  "level (flushCode w) = level w" "keepAcceptRanges (flushCode w) = keepAcceptRanges w"
  "contentTypeFilter (flushCode w) = contentTypeFilter w"
  by (simp_all add: flushCode_def rw_WriteHeader_def)

lemma flushCode_calls:
  "calls (flushCode w) = calls w @ (if code w \<noteq> 0 then [RW_WriteHeader (code w)] else [])"
  by (simp add: flushCode_def rw_WriteHeader_def)

lemma startPlain_fields:
  "buf (snd (startPlain e w)) = []" "gw (snd (startPlain e w)) = gw w"
  "ignore (snd (startPlain e w))" "minSize (snd (startPlain e w)) = minSize w"
  "code (snd (startPlain e w)) = 0"
  "hdr (snd (startPlain e w)) = (hdr w)(HeaderNoCompression := None)"
  by (simp_all add: startPlain_def rw_Write_def Let_def split: prod.splits)

lemma startPlain_calls:
  "calls (snd (startPlain e w)) =
     calls w @ (if code w \<noteq> 0 then [RW_WriteHeader (code w)] else [])
             @ (if buf w = [] then [] else [RW_Write (buf w)])"
  by (simp add: startPlain_def rw_Write_def Let_def flushCode_calls split: prod.splits)

lemma startGzip_fields:
  "buf (snd (startGzip e w)) = []"
  "gw (snd (startGzip e w)) = (if buf w = [] then gw w else Some (GzipWriter (level w)))"
  "ignore (snd (startGzip e w)) = ignore w" "minSize (snd (startGzip e w)) = minSize w"
  "code (snd (startGzip e w)) = 0"
  by (simp_all add: startGzip_def gw_Write_def init_def Let_def split: prod.splits)

lemma startGzip_calls:
  "calls (snd (startGzip e w)) =
     calls w @ (if code w \<noteq> 0 then [RW_WriteHeader (code w)] else [])
             @ (if buf w = [] then [] else [GW_New (level w), GW_Write (buf w)])"
  by (simp add: startGzip_def gw_Write_def init_def Let_def flushCode_calls split: prod.splits)

lemma startGzip_hdr:
  "hdr (snd (startGzip e w)) =
     (if keepAcceptRanges w then ((hdr w)(contentEncoding \<mapsto> [''gzip'']))(contentLength := None)
      else (((hdr w)(contentEncoding \<mapsto> [''gzip'']))(contentLength := None))(acceptRanges := None))"
  by (simp add: startGzip_def gw_Write_def init_def Let_def hset_def hdel_def split: prod.splits)

lemma rw_Write_fields [simp]:
  "buf (snd (rw_Write e w p)) = buf w" "gw (snd (rw_Write e w p)) = gw w"
  "ignore (snd (rw_Write e w p)) = ignore w" "minSize (snd (rw_Write e w p)) = minSize w"
  "hdr (snd (rw_Write e w p)) = hdr w" "code (snd (rw_Write e w p)) = code w"
  "calls (snd (rw_Write e w p)) = calls w @ [RW_Write p]"
  "fst (rw_Write e w p) = sinkWrite e (length (calls w)) p"
  by (simp_all add: rw_Write_def)

lemma gw_Write_fields [simp]:
  "buf (snd (gw_Write e w p)) = buf w" "gw (snd (gw_Write e w p)) = gw w"
  "ignore (snd (gw_Write e w p)) = ignore w" "minSize (snd (gw_Write e w p)) = minSize w"
  "hdr (snd (gw_Write e w p)) = hdr w" "code (snd (gw_Write e w p)) = code w"
  "wire (snd (gw_Write e w p)) = wire w"
  "calls (snd (gw_Write e w p)) = calls w @ [GW_Write p]"
  "fst (gw_Write e w p) = gzWrite e (length (calls w)) p"
  by (simp_all add: gw_Write_def)

lemma writePlain_state:
  "map_option snd (writePlain e w b rem) =
     Some (if fst (startPlain e w) = None \<and> rem \<noteq> []
           then snd (rw_Write e (snd (startPlain e w)) rem) else snd (startPlain e w))"
  by (cases "startPlain e w"; cases "fst (startPlain e w)";
      cases "rw_Write e (snd (startPlain e w)) rem"; 
      cases "snd (fst (rw_Write e (snd (startPlain e w)) rem))")
     (auto simp: writePlain_def)

lemma writePlain_result:
  "map_option fst (writePlain e w b rem) =
     Some (case fst (startPlain e w) of
             Some err \<Rightarrow> (0, Some err)
           | None \<Rightarrow>
               if rem \<noteq> []
               then (case snd (sinkWrite e (length (calls (snd (startPlain e w)))) rem) of
                       Some err \<Rightarrow> (0, Some err) | None \<Rightarrow> (int (length b), None))
               else (int (length b), None))"
  by (cases "startPlain e w"; cases "fst (startPlain e w)";
      cases "rw_Write e (snd (startPlain e w)) rem"; 
      cases "snd (fst (rw_Write e (snd (startPlain e w)) rem))")
     (auto simp: writePlain_def rw_Write_def)

lemma writeGzip_state:
  "map_option snd (writeGzip e w b rem) =
     (if fst (startGzip e w) = None \<and> rem \<noteq> [] \<and> gw (snd (startGzip e w)) = None then None
      else Some (if fst (startGzip e w) = None \<and> rem \<noteq> []
                 then snd (gw_Write e (snd (startGzip e w)) rem) else snd (startGzip e w)))"
  by (cases "startGzip e w"; cases "fst (startGzip e w)";
      cases "gw_Write e (snd (startGzip e w)) rem"; 
      cases "snd (fst (gw_Write e (snd (startGzip e w)) rem))")
     (auto simp: writeGzip_def)

lemma writeGzip_result:
  "writeGzip e w b rem \<noteq> None \<Longrightarrow>
   map_option fst (writeGzip e w b rem) =
     Some (case fst (startGzip e w) of
             Some err \<Rightarrow> (0, Some err)
           | None \<Rightarrow>
               if rem \<noteq> []
               then (case snd (gzWrite e (length (calls (snd (startGzip e w)))) rem) of
                       Some err \<Rightarrow> (0, Some err) | None \<Rightarrow> (int (length b), None))
               else (int (length b), None))"
  by (cases "startGzip e w"; cases "fst (startGzip e w)";
      cases "gw_Write e (snd (startGzip e w)) rem"; 
      cases "snd (fst (gw_Write e (snd (startGzip e w)) rem))")
     (auto simp: writeGzip_def gw_Write_def split: if_splits)

subsection \<open>Write in a writer that has not decided\<close>

text \<open>
  \<open>Write\<close> appends to the buffer, decides, and runs the tail of the branch: the code of
  \<open>Write\<close> and the definitions \<open>buffered\<close>, \<open>remain\<close> and \<open>decide\<close> say the same.
\<close>

lemma Write_undecided:
  assumes "gw w = None" "\<not> ignore w" "within_cap w"
  shows "Write e w b =
     (case decide e (buffered w b) of
        (Wait, w2) \<Rightarrow> Some ((int (length b), None), w2)
      | (Gzip, w2) \<Rightarrow> writeGzip e w2 b (remain w b)
      | (Plain, w2) \<Rightarrow> writePlain e w2 b (remain w b))"
proof -
  have n: "\<not> (if int (length (buf w)) + int (length b) > (if minSize w > 512 then minSize w else 512)
            then (if minSize w > 512 then minSize w else 512) - int (length (buf w))
            else int (length b)) < 0"
    using assms(3) by (auto simp: within_cap_def)
  have t: "nat (if int (length (buf w)) + int (length b) > (if minSize w > 512 then minSize w else 512)
            then (if minSize w > 512 then minSize w else 512) - int (length (buf w))
            else int (length b)) = toAdd w b"
    by (auto simp: toAdd_def max_def)
  show ?thesis
    unfolding Write_def Let_def using assms(1,2) n
    apply (simp only: t if_False simp_thms)
    apply (simp add: decide_def Let_def buffered_def remain_def typed_def effectiveType_def hset_def)
    done
qed

lemma buffered_fields [simp]:
  "gw (buffered w b) = gw w" "ignore (buffered w b) = ignore w"
  "minSize (buffered w b) = minSize w" "hdr (buffered w b) = hdr w"
  "code (buffered w b) = code w" "calls (buffered w b) = calls w"
  "wire (buffered w b) = wire w" "level (buffered w b) = level w"
  "keepAcceptRanges (buffered w b) = keepAcceptRanges w"
  "contentTypeFilter (buffered w b) = contentTypeFilter w"
  by (simp_all add: buffered_def)

lemma buffered_remain: "buf (buffered w b) @ remain w b = buf w @ b"
  by (simp add: buffered_def remain_def)

lemma buffered_cap: "within_cap w \<Longrightarrow> within_cap (buffered w b)"
  by (auto simp: within_cap_def buffered_def toAdd_def)

lemma remain_full:
  "within_cap w \<Longrightarrow> remain w b \<noteq> [] \<Longrightarrow> int (length (buf (buffered w b))) = max 512 (minSize w)"
  by (auto simp: within_cap_def buffered_def remain_def toAdd_def split: if_splits)

lemma typed_fields [simp]:
  "gw (typed e w) = gw w" "ignore (typed e w) = ignore w" "buf (typed e w) = buf w"
  "minSize (typed e w) = minSize w" "code (typed e w) = code w" "calls (typed e w) = calls w"
  "wire (typed e w) = wire w" "level (typed e w) = level w"
  "keepAcceptRanges (typed e w) = keepAcceptRanges w"
  "contentTypeFilter (typed e w) = contentTypeFilter w"
  by (simp_all add: typed_def)

lemma decide_fields [simp]:
  "gw (snd (decide e w)) = gw w" "ignore (snd (decide e w)) = ignore w"
  "buf (snd (decide e w)) = buf w" "minSize (snd (decide e w)) = minSize w"
  "code (snd (decide e w)) = code w" "calls (snd (decide e w)) = calls w"
  "wire (snd (decide e w)) = wire w" "level (snd (decide e w)) = level w"
  "keepAcceptRanges (snd (decide e w)) = keepAcceptRanges w"
  "contentTypeFilter (snd (decide e w)) = contentTypeFilter w"
  by (simp_all add: decide_def Let_def)

lemma decide_Wait:
  "fst (decide e w) = Wait \<Longrightarrow> snd (decide e w) = w \<and> int (length (buf w)) < minSize w"
  by (auto simp: decide_def Let_def split: if_splits)

lemma Write_undecided_state:
  assumes "gw w = None" "\<not> ignore w" "within_cap w"
  shows "map_option snd (Write e w b) =
     (case fst (decide e (buffered w b)) of
        Wait \<Rightarrow> Some (buffered w b)
      | Gzip \<Rightarrow> map_option snd (writeGzip e (snd (decide e (buffered w b))) b (remain w b))
      | Plain \<Rightarrow> map_option snd (writePlain e (snd (decide e (buffered w b))) b (remain w b)))"
  using decide_Wait[of e "buffered w b"]
  by (cases "decide e (buffered w b)"; cases "fst (decide e (buffered w b))")
     (auto simp: Write_undecided[OF assms])

lemma Write_inv:
  assumes "writer_inv w"
  shows "\<exists>r w'. Write e w b = Some (r, w') \<and> writer_inv w' \<and> minSize w' = minSize w"
proof (cases "gw w = None \<and> \<not> ignore w")
  case False
  then show ?thesis using assms
    by (cases "gw_Write e w b"; cases "rw_Write e w b")
       (auto simp: Write_def writer_inv_def within_cap_def gw_Write_def rw_Write_def)
next
  case True
  then have u: "gw w = None" "\<not> ignore w" and c: "within_cap w" using assms by (auto simp: writer_inv_def)
  let ?w1 = "buffered w b"
  let ?w2 = "snd (decide e ?w1)"
  have full: "remain w b \<noteq> [] \<Longrightarrow> buf ?w2 \<noteq> []"
    using remain_full[OF c, of b] by (auto simp: max_def split: if_splits)
  have "\<exists>w'. map_option snd (Write e w b) = Some w' \<and> writer_inv w' \<and> minSize w' = minSize w"
  proof (cases "fst (decide e ?w1)")
    case Wait
    then show ?thesis using u buffered_cap[OF c, of b]
      by (simp add: Write_undecided_state[OF u c] writer_inv_def)
  next
    case Gzip
    then show ?thesis using u full
      by (auto simp: Write_undecided_state[OF u c] writeGzip_state startGzip_fields writer_inv_def within_cap_def)
  next
    case Plain
    then show ?thesis using u
      by (auto simp: Write_undecided_state[OF u c] writePlain_state startPlain_fields writer_inv_def within_cap_def)
  qed
  then show ?thesis by (cases "Write e w b") auto
qed

lemma Write_still_undecided:
  assumes "gw w = None" "\<not> ignore w" "within_cap w" "Write e w b = Some (r, w')"
    "gw w' = None" "\<not> ignore w'"
  shows "r = (int (length b), None) \<and> buf w' = buf w @ b"
proof -
  let ?w1 = "buffered w b"
  let ?w2 = "snd (decide e ?w1)"
  note W = Write_undecided[OF assms(1-3), of e b]
  have full: "remain w b \<noteq> [] \<Longrightarrow> buf ?w2 \<noteq> []"
    using remain_full[OF assms(3), of b] by (auto simp: max_def split: if_splits)
  show ?thesis
  proof (cases "fst (decide e ?w1)")
    case Wait
    then obtain w2 where d0: "decide e ?w1 = (Wait, w2)" by (cases "decide e ?w1") auto
    with Wait decide_Wait[of e ?w1]
    have d: "decide e ?w1 = (Wait, ?w1)" and lt: "int (length (buf ?w1)) < minSize w"
      by auto
    have "remain w b = []"
    proof (rule ccontr)
      assume "remain w b \<noteq> []"
      from remain_full[OF assms(3) this] lt show False by (simp add: max_def split: if_splits)
    qed
    then have "buf ?w1 = buf w @ b" using buffered_remain[of w b] by simp
    then show ?thesis using assms(4) W by (simp add: d)
  next
    case Gzip
    then obtain w2 where d: "decide e ?w1 = (Gzip, w2)" by (cases "decide e ?w1") auto
    then have w2: "w2 = ?w2" by simp
    have "writeGzip e w2 b (remain w b) = Some (r, w')"
      using assms(4) W by (simp add: d)
    then have s: "map_option snd (writeGzip e ?w2 b (remain w b)) = Some w'"
         and r: "map_option fst (writeGzip e ?w2 b (remain w b)) = Some r"
      unfolding w2 by simp_all
    have e1: "buf ?w1 = []"
      using s assms(5) full
      by (auto simp: writeGzip_state startGzip_fields split: if_splits)
    then have e2: "remain w b = []" using full by auto
    have e3: "buf w = [] \<and> b = []" using buffered_remain[of w b] e1 e2 by simp
    have "fst (startGzip e ?w2) = None" using e1 by (simp add: startGzip_def Let_def flushCode_def rw_WriteHeader_def)
    moreover have ne: "writeGzip e ?w2 b (remain w b) \<noteq> None" using s by auto
    ultimately have "r = (int (length b), None)"
      using r e2 writeGzip_result[OF ne] by auto
    moreover have "buf w' = []"
      using s e2 by (auto simp: writeGzip_state startGzip_fields split: if_splits)
    ultimately show ?thesis using e3 by simp
  next
    case Plain
    then obtain w2 where d: "decide e ?w1 = (Plain, w2)" by (cases "decide e ?w1") auto
    then have w2: "w2 = ?w2" by simp
    have "writePlain e w2 b (remain w b) = Some (r, w')"
      using assms(4) W by (simp add: d)
    then have "map_option snd (writePlain e ?w2 b (remain w b)) = Some w'"
      unfolding w2 by simp
    then have "ignore w'"
      by (auto simp: writePlain_state startPlain_fields split: if_splits)
    then show ?thesis using assms(6) by simp
  qed
qed

subsection \<open>The invariant of reachable writers\<close>

lemma flushForward_fields [simp]:
  "buf (flushForward e w) = buf w" "gw (flushForward e w) = gw w"
  "ignore (flushForward e w) = ignore w" "minSize (flushForward e w) = minSize w"
  "hdr (flushForward e w) = hdr w" "code (flushForward e w) = code w"
  "wire (flushForward e w) = wire w"
  by (simp_all add: flushForward_def gw_Flush_def rw_Flush_def Let_def)

lemma flushForward_calls:
  "calls (flushForward e w) =
     calls w @ (if gw w \<noteq> None then [GW_Flush] else []) @ (if sinkFlusher e then [RW_Flush] else [])"
  by (simp add: flushForward_def gw_Flush_def rw_Flush_def Let_def)

lemma flushDecide_cases:
  "flushDecide e w = snd (startGzip e (typed e w)) \<or> flushDecide e w = snd (startPlain e (typed e w))
   \<or> flushDecide e w = snd (startGzip e w) \<or> flushDecide e w = snd (startPlain e w)"
  by (auto simp: flushDecide_def Let_def typed_def)

lemma flushDecide_inv:
  "gw w = None \<Longrightarrow> \<not> ignore w \<Longrightarrow> writer_inv (flushDecide e w) \<and> minSize (flushDecide e w) = minSize w"
  using flushDecide_cases[of e w]
  by (auto simp: writer_inv_def within_cap_def startGzip_fields startPlain_fields)

lemma Flush_inv: "writer_inv w \<Longrightarrow> writer_inv (Flush e w) \<and> minSize (Flush e w) = minSize w"
  using flushDecide_inv[of w e]
  by (auto simp: Flush_def writer_inv_def within_cap_def)

lemma Close_inv: "writer_inv w \<Longrightarrow> writer_inv (snd (Close e w)) \<and> minSize (snd (Close e w)) = minSize w"
  by (cases "startPlain e w"; cases "fst (startPlain e w)")
     (insert startPlain_fields[of e w], auto simp: Close_def writer_inv_def within_cap_def)

lemma step_inv:
  assumes "writer_inv w"
  shows "\<exists>w'. step e w c = Some w' \<and> writer_inv w' \<and> minSize w' = minSize w"
proof (cases c)
  case (CallWrite b)
  then show ?thesis using Write_inv[OF assms, of e b] by auto
next
  case CallFlush
  then show ?thesis using Flush_inv[OF assms, of e] by simp
next
  case CallClose
  then show ?thesis using Close_inv[OF assms, of e] by simp
qed (use assms in \<open>auto simp: writer_inv_def within_cap_def WriteHeader_def\<close>)

lemma run_inv:
  "writer_inv w \<Longrightarrow> \<exists>w'. run e w cs = Some w' \<and> writer_inv w' \<and> minSize w' = minSize w"
proof (induction cs arbitrary: w)
  case Nil
  then show ?case by simp
next
  case (Cons c cs)
  from step_inv[OF Cons.prems, of e c] obtain w1
    where s: "step e w c = Some w1" "writer_inv w1" "minSize w1 = minSize w" by auto
  from Cons.IH[OF s(2)] s show ?case by auto
qed

lemma newWriter_inv: "writer_inv (newWriter c h)"
  by (simp add: writer_inv_def within_cap_def newWriter_def)


subsection \<open>The tests of Write and Flush\<close>

lemma decide_Gzip_iff: "fst (decide e w) = Gzip \<longleftrightarrow> writeTest e w (declaredLength w)"
  by (auto simp: decide_def writeTest_def declaredLength_def Let_def)

lemma typed_hdr:
  "hlen (hdr (typed e w)) HeaderNoCompression = hlen (hdr w) HeaderNoCompression"
  by (simp add: typed_def hlen_def hset_def)

lemma flushDecide_eq:
  "flushDecide e w =
     (if writeTest e w (if declaredLength w = 0 then minSize w else declaredLength w)
      then snd (startGzip e (typed e w)) else snd (startPlain e (typed e w)))"
proof -
  have t: "(if hget (hdr w) contentType = [] \<and> hdr w contentType = None
            then w\<lparr>hdr := hset (hdr w) contentType
                   (if hget (hdr w) contentType = [] then DetectContentType e (buf w)
                    else hget (hdr w) contentType)\<rparr> else w) = typed e w"
    by (auto simp: typed_def hget_def)
  show ?thesis
    unfolding flushDecide_def Let_def t
    by (auto simp: writeTest_def declaredLength_def effectiveType_def typed_hdr)
qed

subsection \<open>After a plain commit\<close>

lemma step_plain:
  assumes "ignore w" "gw w = None"
  shows "\<exists>w'. step e w c = Some w' \<and> ignore w' \<and> gw w' = None
            \<and> filter isGz (calls w') = filter isGz (calls w)"
  using assms
  by (cases c)
     (auto simp: Write_def WriteHeader_def Flush_def Close_def rw_Write_def flushForward_calls)

lemma run_plain:
  "ignore w \<Longrightarrow> gw w = None \<Longrightarrow>
   \<exists>w'. run e w cs = Some w' \<and> ignore w' \<and> gw w' = None
        \<and> filter isGz (calls w') = filter isGz (calls w)"
proof (induction cs arbitrary: w)
  case Nil
  then show ?case by simp
next
  case (Cons c cs)
  from step_plain[OF Cons.prems, of e c] obtain w1 where
    s: "step e w c = Some w1" "ignore w1" "gw w1 = None"
       "filter isGz (calls w1) = filter isGz (calls w)" by auto
  from Cons.IH[OF s(2,3)] s show ?case by auto
qed

lemma decide_Plain_blocked:
  "hlen (hdr w) HeaderNoCompression > 0 \<or> hget (hdr w) contentEncoding \<noteq> []
     \<or> hget (hdr w) contentRange \<noteq> [] \<Longrightarrow> decide e w = (Plain, w)"
  by (auto simp: decide_def Let_def)

lemma writePlain_commit:
  "\<exists>r w'. writePlain e w b rem = Some (r, w') \<and> ignore w' \<and> gw w' = gw w
      \<and> hdr w' = (hdr w)(HeaderNoCompression := None)
      \<and> calls w' = calls w @ (if code w \<noteq> 0 then [RW_WriteHeader (code w)] else [])
                     @ (if buf w = [] then [] else [RW_Write (buf w)])
                     @ (if fst (startPlain e w) = None \<and> rem \<noteq> [] then [RW_Write rem] else [])"
proof -
  from writePlain_state[of e w b rem] obtain r w' where
    W: "writePlain e w b rem = Some (r, w')"
    and w': "w' = (if fst (startPlain e w) = None \<and> rem \<noteq> []
           then snd (rw_Write e (snd (startPlain e w)) rem) else snd (startPlain e w))"
    by (cases "writePlain e w b rem") auto
  show ?thesis using W w' by (auto simp: startPlain_fields startPlain_calls)
qed

lemma sinkBytes_append [simp]: "sinkBytes (xs @ ys) = sinkBytes xs @ sinkBytes ys"
  by (induction xs rule: sinkBytes.induct) auto

lemma gzBytes_append [simp]: "gzBytes (xs @ ys) = gzBytes xs @ gzBytes ys"
  by (induction xs rule: gzBytes.induct) auto

lemma run_append: "run e w (cs @ ds) = (case run e w cs of None \<Rightarrow> None | Some w' \<Rightarrow> run e w' ds)"
  by (induction cs arbitrary: w) (auto split: option.splits)


subsection \<open>When Write commits compressed\<close>

lemma Write_compresses_iff:
  assumes "gw w = None" "\<not> ignore w" "within_cap w" "buf w @ b \<noteq> []"
  shows "(\<exists>r w'. Write e w b = Some (r, w') \<and> gw w' \<noteq> None)
         \<longleftrightarrow> writeTest e (buffered w b) (declaredLength w)"
proof -
  let ?w1 = "buffered w b"
  let ?w2 = "snd (decide e ?w1)"
  have ne: "buf ?w1 \<noteq> []"
    using assms(3,4) by (auto simp: buffered_def toAdd_def within_cap_def max_def split: if_splits)
  have dl: "declaredLength ?w1 = declaredLength w" by (simp add: declaredLength_def)
  from Write_inv[of w e b] assms obtain r w' where W: "Write e w b = Some (r, w')"
    by (auto simp: writer_inv_def)
  then have S: "map_option snd (Write e w b) = Some w'" by simp
  have key: "gw w' \<noteq> None \<longleftrightarrow> writeTest e ?w1 (declaredLength w)"
  proof (cases "fst (decide e ?w1)")
    case Wait
    then show ?thesis using S decide_Gzip_iff[of e ?w1] assms(1)
      by (auto simp: Write_undecided_state[OF assms(1-3)] dl)
  next
    case Gzip
    then show ?thesis using S decide_Gzip_iff[of e ?w1] ne
      by (auto simp: Write_undecided_state[OF assms(1-3)] dl writeGzip_state startGzip_fields
          split: if_splits)
  next
    case Plain
    then show ?thesis using S decide_Gzip_iff[of e ?w1] assms(1)
      by (auto simp: Write_undecided_state[OF assms(1-3)] dl writePlain_state startPlain_fields
          split: if_splits)
  qed
  then show ?thesis using W by auto
qed

subsection \<open>Two values of atoi\<close>

lemma atoi_empty: "atoi [] = (0, False)"
  by (simp add: atoi_def intSize_def ParseInt_def)


subsection \<open>The errors of the calls\<close>

lemma callErrors_append:
  "callErrors e i (xs @ ys) = callErrors e i xs @ callErrors e (i + length xs) ys"
  by (induction xs arbitrary: i) auto

lemma startPlain_result:
  "fst (startPlain e w) =
     (if buf w = [] then None
      else let r = sinkWrite e (length (calls w) + (if code w \<noteq> 0 then 1 else 0)) (buf w)
           in if snd r = None \<and> fst r < int (length (buf w)) then Some ErrShortWrite else snd r)"
  by (simp add: startPlain_def Let_def rw_Write_def flushCode_calls split: prod.splits)

lemma startGzip_result:
  "fst (startGzip e w) =
     (if buf w = [] then None
      else let r = gzWrite e (length (calls w) + (if code w \<noteq> 0 then 1 else 0) + 1) (buf w)
           in if snd r = None \<and> fst r < int (length (buf w)) then Some ErrShortWrite else snd r)"
  by (simp add: startGzip_def Let_def gw_Write_def init_def flushCode_calls split: prod.splits)

lemma startPlain_errors:
  "x \<in> set (callErrors e (length (calls w)) (newCalls w (snd (startPlain e w))))
   \<Longrightarrow> fst (startPlain e w) = Some x"
  by (auto simp: newCalls_def startPlain_calls startPlain_result callErrors_append callError_def
      Let_def split: if_splits option.splits)

lemma startGzip_errors:
  "x \<in> set (callErrors e (length (calls w)) (newCalls w (snd (startGzip e w))))
   \<Longrightarrow> fst (startGzip e w) = Some x"
  by (auto simp: newCalls_def startGzip_calls startGzip_result callErrors_append callError_def
      Let_def split: if_splits option.splits)

lemma newCalls_startPlain:
  "newCalls w (snd (startPlain e w)) =
     (if code w \<noteq> 0 then [RW_WriteHeader (code w)] else [])
       @ (if buf w = [] then [] else [RW_Write (buf w)])"
  by (simp add: newCalls_def startPlain_calls)

lemma newCalls_startGzip:
  "newCalls w (snd (startGzip e w)) =
     (if code w \<noteq> 0 then [RW_WriteHeader (code w)] else [])
       @ (if buf w = [] then [] else [GW_New (level w), GW_Write (buf w)])"
  by (simp add: newCalls_def startGzip_calls)

lemma writePlain_errors:
  assumes "writePlain e w b rem = Some ((n, r), w')"
    and "x \<in> set (callErrors e (length (calls w)) (newCalls w w'))"
  shows "r = Some x"
proof -
  let ?w1 = "snd (startPlain e w)"
  have S: "w' = (if fst (startPlain e w) = None \<and> rem \<noteq> []
           then snd (rw_Write e ?w1 rem) else ?w1)"
    using writePlain_state[of e w b rem] assms(1) by simp
  have R: "(n, r) = (case fst (startPlain e w) of
             Some err \<Rightarrow> (0, Some err)
           | None \<Rightarrow>
               if rem \<noteq> []
               then (case snd (sinkWrite e (length (calls ?w1)) rem) of
                       Some err \<Rightarrow> (0, Some err) | None \<Rightarrow> (int (length b), None))
               else (int (length b), None))"
    using writePlain_result[of e w b rem] assms(1) by simp
  show ?thesis
  proof (cases "fst (startPlain e w) = None \<and> rem \<noteq> []")
    case False
    then have "w' = ?w1" unfolding S by (rule if_not_P)
    with assms(2) have "fst (startPlain e w) = Some x" by (simp add: startPlain_errors)
    with R show ?thesis by simp
  next
    case True
    then have w': "newCalls w w' = newCalls w ?w1 @ [RW_Write rem]"
      using S by (simp add: newCalls_def startPlain_calls)
    have "x \<notin> set (callErrors e (length (calls w)) (newCalls w ?w1))"
      using startPlain_errors[of x e w] True by auto
    with assms(2) w' have "callError e (length (calls w) + length (newCalls w ?w1)) (RW_Write rem) = Some x"
      by (auto simp: callErrors_append split: option.splits)
    then have "snd (sinkWrite e (length (calls ?w1)) rem) = Some x"
      by (simp add: callError_def newCalls_startPlain startPlain_calls)
    with R True show ?thesis by simp
  qed
qed

lemma writeGzip_errors:
  assumes "writeGzip e w b rem = Some ((n, r), w')"
    and "x \<in> set (callErrors e (length (calls w)) (newCalls w w'))"
  shows "r = Some x"
proof -
  let ?w1 = "snd (startGzip e w)"
  have ne: "writeGzip e w b rem \<noteq> None" using assms(1) by simp
  have m: "map_option snd (writeGzip e w b rem) = Some w'" using assms(1) by simp
  have S: "w' = (if fst (startGzip e w) = None \<and> rem \<noteq> []
           then snd (gw_Write e ?w1 rem) else ?w1)"
  proof (cases "fst (startGzip e w) = None \<and> rem \<noteq> [] \<and> gw ?w1 = None")
    case True
    then show ?thesis using m by (simp only: writeGzip_state if_True) simp
  next
    case False
    then show ?thesis using m by (simp only: writeGzip_state if_False) simp
  qed
  have R: "(n, r) = (case fst (startGzip e w) of
             Some err \<Rightarrow> (0, Some err)
           | None \<Rightarrow>
               if rem \<noteq> []
               then (case snd (gzWrite e (length (calls ?w1)) rem) of
                       Some err \<Rightarrow> (0, Some err) | None \<Rightarrow> (int (length b), None))
               else (int (length b), None))"
    using writeGzip_result[OF ne] assms(1) by simp
  show ?thesis
  proof (cases "fst (startGzip e w) = None \<and> rem \<noteq> []")
    case False
    then have "w' = ?w1" unfolding S by (rule if_not_P)
    with assms(2) have "fst (startGzip e w) = Some x" by (simp add: startGzip_errors)
    with R show ?thesis by simp
  next
    case True
    then have w': "newCalls w w' = newCalls w ?w1 @ [GW_Write rem]"
      using S by (simp add: newCalls_def startGzip_calls)
    have "x \<notin> set (callErrors e (length (calls w)) (newCalls w ?w1))"
      using startGzip_errors[of x e w] True by auto
    with assms(2) w' have "callError e (length (calls w) + length (newCalls w ?w1)) (GW_Write rem) = Some x"
      by (auto simp: callErrors_append split: option.splits)
    then have "snd (gzWrite e (length (calls ?w1)) rem) = Some x"
      by (simp add: callError_def newCalls_startGzip startGzip_calls)
    with R True show ?thesis by simp
  qed
qed

lemma Write_errors:
  assumes "within_cap w" "Write e w b = Some ((n, r), w')"
    and "x \<in> set (callErrors e (length (calls w)) (newCalls w w'))"
  shows "r = Some x"
proof (cases "gw w = None \<and> \<not> ignore w")
  case False
  then show ?thesis using assms(2,3)
    by (auto simp: Write_def newCalls_def gw_Write_def rw_Write_def callError_def
        split: if_splits option.splits)
next
  case True
  then have u: "gw w = None" "\<not> ignore w" by auto
  let ?w1 = "buffered w b"
  obtain br w2 where d: "decide e ?w1 = (br, w2)" by (cases "decide e ?w1")
  then have c2: "calls w2 = calls w" using decide_fields(6)[of e ?w1] by simp
  then have n2: "newCalls w2 w' = newCalls w w'" by (simp add: newCalls_def)
  note W = assms(2)[unfolded Write_undecided[OF u assms(1)] d]
  show ?thesis
  proof (cases br)
    case Wait
    then have "w' = w2" using W by simp
    then show ?thesis using assms(3) c2 by (simp add: newCalls_def)
  next
    case Gzip
    then have "writeGzip e w2 b (remain w b) = Some ((n, r), w')" using W by simp
    from writeGzip_errors[OF this] assms(3) c2 n2 show ?thesis by simp
  next
    case Plain
    then have "writePlain e w2 b (remain w b) = Some ((n, r), w')" using W by simp
    from writePlain_errors[OF this] assms(3) c2 n2 show ?thesis by simp
  qed
qed

lemma Close_errors:
  assumes "x \<in> set (callErrors e (length (calls w)) (newCalls w (snd (Close e w))))"
  shows "fst (Close e w) = Some (if gw w = None then CloseErrorf (Error x) else x)"
proof (cases "ignore w")
  case True
  then show ?thesis using assms by (simp add: Close_def newCalls_def)
next
  case False
  show ?thesis
  proof (cases "gw w = None")
    case True
    with False have C: "snd (Close e w) = snd (startPlain e w)"
      "fst (Close e w) = map_option (\<lambda>err. CloseErrorf (Error err)) (fst (startPlain e w))"
      by (auto simp: Close_def split: prod.splits option.splits)
    from assms have "fst (startPlain e w) = Some x" unfolding C(1) by (rule startPlain_errors)
    then show ?thesis using True C(2) by simp
  next
    case g: False
    then show ?thesis using False assms
      by (auto simp: Close_def newCalls_def callError_def split: option.splits)
  qed
qed

lemma Close_undecided:
  assumes "\<not> ignore w" "gw w = None"
  shows "snd (Close e w) = snd (startPlain e w)"
    and "fst (Close e w) = map_option (\<lambda>err. CloseErrorf (Error err)) (fst (startPlain e w))"
  using assms by (auto simp: Close_def split: prod.splits option.splits)

subsection \<open>The request gate at one header\<close>

lemma split_ex: "Split ''gzip;q=0;x=1'' CHR '';'' = [''gzip'', ''q=0'', ''x=1'']" by simp

lemma trim_ex:
  "TrimSpace ''gzip'' = ''gzip''" "TrimSpace ''q=0'' = ''q=0''" "TrimSpace ''x=1'' = ''x=1''"
  "TrimSpace ''gzip;q=0;x=1'' = ''gzip;q=0;x=1''"
  by code_simp+

lemma lower_ex: "ToLower ''gzip'' = ''gzip''" by code_simp

lemma prefix_ex:
  "HasPrefix ''q=0'' ''q=''" "TrimPrefix ''q=0'' ''q='' = ''0''" "\<not> HasPrefix ''x=1'' ''q=''"
  by code_simp+

lemma stop_ex: "stopAt ''gzip;q=0;x=1'' = 12" by code_simp

lemma parseCoding_ex: "parseCoding pf ''gzip;q=0;x=1'' = (''gzip'', Finite 1, snd (pf ''0''))"
  by (cases "pf ''0''")
     (simp add: parseCoding_def split_ex enumerate_simps trim_ex lower_ex prefix_ex)

text \<open>
  \<open>parseCoding\<close> on an entry of one part, and of two parts with the second a \<^verbatim>\<open>q=\<close>
  annotation: there the weight is 1.0, and the annotation clamped.
\<close>

lemma parseCoding_one_part:
  "Split s CHR '';'' = [a] \<Longrightarrow>
   fst (parseCoding pf s) = ToLower (TrimSpace a) \<and> fst (snd (parseCoding pf s)) = Finite 1"
  by (simp add: parseCoding_def enumerate_simps)

lemma parseCoding_two_parts:
  "Split s CHR '';'' = [a, b] \<Longrightarrow> HasPrefix (TrimSpace b) ''q='' \<Longrightarrow>
   fst (parseCoding pf s) = ToLower (TrimSpace a)
   \<and> fst (snd (parseCoding pf s)) =
       (let q = fst (pf (TrimPrefix (TrimSpace b) ''q=''))
        in if f64_less q (Finite 0) then Finite 0
           else if f64_less (Finite 1) q then Finite 1 else q)"
  by (cases "pf (TrimPrefix (TrimSpace b) ''q='')")
     (simp add: parseCoding_def enumerate_simps Let_def)

subsection \<open>The status commit\<close>

text \<open>What leaves with the status line when \<open>startPlain\<close> has a status code to flush.\<close>

lemma startPlain_wire:
  "code w \<noteq> 0 \<Longrightarrow> wire w = None \<Longrightarrow> wire (snd (startPlain e w)) = Some (code w, hdr w)"
  by (simp add: startPlain_def flushCode_def rw_WriteHeader_def rw_Write_def Let_def
      split: prod.splits)

lemma statusOnce_append:
  "statusOnce evs k \<Longrightarrow> \<forall>ev\<in>set xs. \<not> isWriteHeader ev \<Longrightarrow> statusOnce (evs @ xs) k"
  by (cases evs) (auto simp: statusOnce_def)

lemma statusOnce_commit:
  "\<forall>ev\<in>set xs. \<not> isWriteHeader ev \<Longrightarrow>
   statusOnce ((if k \<noteq> 0 then [RW_WriteHeader k] else []) @ xs) k"
  by (auto simp: statusOnce_def)

lemma statusOnce_later: "statusOnce evs k \<Longrightarrow> statusOnce evs (if k \<noteq> 0 then k else x)"
  by (auto simp: statusOnce_def)

text \<open>The calls of a Write that commits, in a writer that has not decided.\<close>

lemma Write_undecided_calls:
  assumes "gw w = None" "\<not> ignore w" "within_cap w" "b \<noteq> []"
    and "Write e w b = Some (r, w')"
  shows "gw w' = None \<and> \<not> ignore w' \<and> calls w' = calls w \<and> code w' = code w
       \<or> \<not> (gw w' = None \<and> \<not> ignore w')
         \<and> (\<exists>xs. calls w' = calls w @ (if code w \<noteq> 0 then [RW_WriteHeader (code w)] else []) @ xs
                \<and> (\<forall>ev\<in>set xs. \<not> isWriteHeader ev))"
proof -
  let ?w1 = "buffered w b"
  let ?w2 = "snd (decide e ?w1)"
  have ne: "buf ?w1 \<noteq> []"
    using assms(3,4) by (auto simp: buffered_def toAdd_def within_cap_def max_def split: if_splits)
  have S: "map_option snd (Write e w b) = Some w'" using assms(5) by simp
  show ?thesis
  proof (cases "fst (decide e ?w1)")
    case Wait
    then have "w' = ?w1" using S by (simp add: Write_undecided_state[OF assms(1-3)])
    then show ?thesis using assms(1,2) by simp
  next
    case Gzip
    let ?s = "snd (startGzip e ?w2)"
    have w': "w' = (if fst (startGzip e ?w2) = None \<and> remain w b \<noteq> []
                    then snd (gw_Write e ?s (remain w b)) else ?s)"
      using S Gzip ne
      by (simp add: Write_undecided_state[OF assms(1-3)] writeGzip_state startGzip_fields
          split: if_splits)
    have g: "gw w' \<noteq> None" using ne by (simp add: w' startGzip_fields)
    have "calls w' = calls w @ (if code w \<noteq> 0 then [RW_WriteHeader (code w)] else [])
             @ ([GW_New (level w), GW_Write (buf ?w1)]
                 @ (if fst (startGzip e ?w2) = None \<and> remain w b \<noteq> []
                    then [GW_Write (remain w b)] else []))"
      using ne by (simp add: w' startGzip_calls)
    then show ?thesis using g by (intro disjI2 conjI exI) auto
  next
    case Plain
    let ?s = "snd (startPlain e ?w2)"
    have w': "w' = (if fst (startPlain e ?w2) = None \<and> remain w b \<noteq> []
                    then snd (rw_Write e ?s (remain w b)) else ?s)"
      using S Plain by (simp add: Write_undecided_state[OF assms(1-3)] writePlain_state)
    have g: "ignore w'" by (simp add: w' startPlain_fields)
    have "calls w' = calls w @ (if code w \<noteq> 0 then [RW_WriteHeader (code w)] else [])
             @ ([RW_Write (buf ?w1)]
                 @ (if fst (startPlain e ?w2) = None \<and> remain w b \<noteq> []
                    then [RW_Write (remain w b)] else []))"
      using ne by (simp add: w' startPlain_calls)
    then show ?thesis using g by (intro disjI2 conjI exI) auto
  qed
qed

lemma Flush_undecided_calls:
  assumes "gw w = None" "\<not> ignore w" "buf w \<noteq> []"
  shows "\<not> (gw (Flush e w) = None \<and> \<not> ignore (Flush e w))
       \<and> (\<exists>xs. calls (Flush e w) = calls w @ (if code w \<noteq> 0 then [RW_WriteHeader (code w)] else []) @ xs
              \<and> (\<forall>ev\<in>set xs. \<not> isWriteHeader ev))"
proof -
  have F: "Flush e w = flushForward e (flushDecide e w)" using assms by (simp add: Flush_def)
  show ?thesis
  proof (cases "writeTest e w (if declaredLength w = 0 then minSize w else declaredLength w)")
    case True
    then have "calls (Flush e w) = calls w @ (if code w \<noteq> 0 then [RW_WriteHeader (code w)] else [])
        @ ([GW_New (level w), GW_Write (buf w), GW_Flush] @ (if sinkFlusher e then [RW_Flush] else []))"
      and "gw (Flush e w) \<noteq> None"
      using assms by (simp_all add: F flushDecide_eq flushForward_calls startGzip_fields startGzip_calls)
    then show ?thesis by (intro conjI exI) auto
  next
    case False
    then have "calls (Flush e w) = calls w @ (if code w \<noteq> 0 then [RW_WriteHeader (code w)] else [])
        @ ([RW_Write (buf w)] @ (if sinkFlusher e then [RW_Flush] else []))"
      and "ignore (Flush e w)"
      using assms by (simp_all add: F flushDecide_eq flushForward_calls startPlain_fields startPlain_calls)
    then show ?thesis by (intro conjI exI) auto
  qed
qed

lemma firstCode_single: "\<forall>x. c \<noteq> CallWriteHeader x \<Longrightarrow> (if k \<noteq> 0 then k else firstCode [c]) = k"
  by (cases c) auto

lemma step_status:
  assumes "statusInv w k" "c \<noteq> CallClose" "nonEmptyWrite c"
  shows "\<exists>w'. step e w c = Some w' \<and> statusInv w' (if k \<noteq> 0 then k else firstCode [c])"
proof -
  from assms(1) have i: "writer_inv w" and so: "statusOnce (calls w) k"
    and u: "gw w = None \<and> \<not> ignore w \<longrightarrow> calls w = [] \<and> code w = k"
    by (auto simp: statusInv_def)
  from step_inv[OF i, of e c] obtain w' where s: "step e w c = Some w'" and i': "writer_inv w'"
    by auto
  have other: "statusOnce (calls w') k
        \<and> (gw w' = None \<and> \<not> ignore w' \<longrightarrow> calls w' = [] \<and> code w' = k)"
    if nh: "\<forall>x. c \<noteq> CallWriteHeader x"
  proof (cases c)
    case (CallWriteHeader x)
    then show ?thesis using nh by simp
  next
    case (CallWrite b)
    then have ne: "b \<noteq> []" using assms(3) by simp
    from s CallWrite obtain r where W: "Write e w b = Some (r, w')" by auto
    show ?thesis
    proof (cases "gw w = None \<and> \<not> ignore w")
      case True
      then have un: "gw w = None" "\<not> ignore w" and c0: "calls w = []" and ck: "code w = k"
        using u by auto
      have cap: "within_cap w" using i by (simp add: writer_inv_def)
      from Write_undecided_calls[OF un cap ne W] show ?thesis
      proof
        assume "gw w' = None \<and> \<not> ignore w' \<and> calls w' = calls w \<and> code w' = code w"
        then show ?thesis using c0 ck so by simp
      next
        assume a: "\<not> (gw w' = None \<and> \<not> ignore w') \<and>
          (\<exists>xs. calls w' = calls w @ (if code w \<noteq> 0 then [RW_WriteHeader (code w)] else []) @ xs
              \<and> (\<forall>ev\<in>set xs. \<not> isWriteHeader ev))"
        then obtain xs where "calls w' = (if k \<noteq> 0 then [RW_WriteHeader k] else []) @ xs"
          "\<forall>ev\<in>set xs. \<not> isWriteHeader ev" using c0 ck by auto
        then have "statusOnce (calls w') k" using statusOnce_commit[of xs k] by simp
        then show ?thesis using a by auto
      qed
    next
      case False
      then have "calls w' = calls w @ [GW_Write b] \<or> calls w' = calls w @ [RW_Write b]"
        and "\<not> (gw w' = None \<and> \<not> ignore w')"
        using W by (auto simp: Write_def gw_Write_def rw_Write_def split: if_splits)
      then show ?thesis using statusOnce_append[OF so, of "[GW_Write b]"]
          statusOnce_append[OF so, of "[RW_Write b]"]
        by auto
    qed
  next
    case CallFlush
    then have w': "w' = Flush e w" using s by simp
    show ?thesis
    proof (cases "gw w = None \<and> \<not> ignore w")
      case True
      then have un: "gw w = None" "\<not> ignore w" and c0: "calls w = []" and ck: "code w = k"
        using u by auto
      show ?thesis
      proof (cases "buf w = []")
        case True
        then have "w' = w" using un by (simp add: w' Flush_def)
        then show ?thesis using so u by simp
      next
        case False
        from Flush_undecided_calls[OF un False, of e] obtain xs where
          d: "\<not> (gw w' = None \<and> \<not> ignore w')"
          and "calls w' = (if k \<noteq> 0 then [RW_WriteHeader k] else []) @ xs"
          "\<forall>ev\<in>set xs. \<not> isWriteHeader ev" using c0 ck w' by auto
        then have "statusOnce (calls w') k" using statusOnce_commit[of xs k] by simp
        then show ?thesis using d by auto
      qed
    next
      case False
      then have "calls w' = calls w @ ((if gw w \<noteq> None then [GW_Flush] else [])
                    @ (if sinkFlusher e then [RW_Flush] else []))"
        and "\<not> (gw w' = None \<and> \<not> ignore w')"
        by (auto simp: w' Flush_def flushForward_calls)
      then show ?thesis
        using statusOnce_append[OF so, of "(if gw w \<noteq> None then [GW_Flush] else [])
                    @ (if sinkFlusher e then [RW_Flush] else [])"]
        by auto
    qed
  next
    case CallClose
    then show ?thesis using assms(2) by simp
  next
    case (SetHeader k' vs)
    then show ?thesis using s so u by auto
  next
    case (DelHeader k')
    then show ?thesis using s so u by auto
  qed
  have "statusOnce (calls w') (if k \<noteq> 0 then k else firstCode [c])
        \<and> (gw w' = None \<and> \<not> ignore w' \<longrightarrow> calls w' = []
             \<and> code w' = (if k \<noteq> 0 then k else firstCode [c]))"
  proof (cases "\<exists>x. c = CallWriteHeader x")
    case True
    then obtain x where c: "c = CallWriteHeader x" by auto
    then have w': "w' = WriteHeader w x" using s by simp
    show ?thesis using so u statusOnce_later[OF so, of x]
      by (auto simp: w' c WriteHeader_def)
  next
    case False
    then have nh: "\<forall>x. c \<noteq> CallWriteHeader x" by simp
    show ?thesis unfolding firstCode_single[OF nh] by (rule other[OF nh])
  qed
  with s i' show ?thesis by (auto simp: statusInv_def)
qed

lemma firstCode_Cons:
  "(if (if k \<noteq> 0 then k else firstCode [c]) \<noteq> 0 then (if k \<noteq> 0 then k else firstCode [c])
    else firstCode cs) = (if k \<noteq> 0 then k else firstCode (c # cs))"
  by (cases c) auto

lemma run_status:
  "statusInv w k \<Longrightarrow> CallClose \<notin> set cs \<Longrightarrow> \<forall>c\<in>set cs. nonEmptyWrite c \<Longrightarrow>
   \<exists>w'. run e w cs = Some w' \<and> statusInv w' (if k \<noteq> 0 then k else firstCode cs)"
proof (induction cs arbitrary: w k)
  case Nil
  then show ?case by (cases "k = 0") auto
next
  case (Cons c cs)
  from step_status[OF Cons.prems(1), of c e] Cons.prems(2,3) obtain w1 where
    s: "step e w c = Some w1" "statusInv w1 (if k \<noteq> 0 then k else firstCode [c])" by auto
  from Cons.IH[OF s(2)] Cons.prems(2,3) obtain w' where
    "run e w1 cs = Some w'"
    "statusInv w' (if (if k \<noteq> 0 then k else firstCode [c]) \<noteq> 0
                   then (if k \<noteq> 0 then k else firstCode [c]) else firstCode cs)"
    by auto
  then show ?case using s(1) by (simp add: firstCode_Cons)
qed

lemma Close_status:
  assumes "statusInv w k"
  shows "statusOnce (calls (snd (Close e w))) k"
proof -
  from assms have so: "statusOnce (calls w) k"
    and u: "gw w = None \<and> \<not> ignore w \<longrightarrow> calls w = [] \<and> code w = k"
    by (auto simp: statusInv_def)
  show ?thesis
  proof (cases "gw w = None \<and> \<not> ignore w")
    case True
    then have "calls (snd (Close e w)) = (if k \<noteq> 0 then [RW_WriteHeader k] else [])
                 @ (if buf w = [] then [] else [RW_Write (buf w)])"
      using u by (simp add: Close_undecided startPlain_calls)
    then show ?thesis using statusOnce_commit[of "if buf w = [] then [] else [RW_Write (buf w)]" k]
      by simp
  next
    case False
    then have "calls (snd (Close e w)) = calls w @ (if ignore w then [] else [GW_Close])"
      by (auto simp: Close_def)
    then show ?thesis using statusOnce_append[OF so, of "if ignore w then [] else [GW_Close]"]
      by simp
  qed
qed

lemma newWriter_status: "statusInv (newWriter c h) 0"
  by (simp add: statusInv_def newWriter_inv statusOnce_def) (simp add: newWriter_def)

subsection \<open>Writes that reach the compressor\<close>

lemma nat_diff_int: "nat (m - int n) = nat m - n"
  by arith

lemma buffered_buf:
  "within_cap w \<Longrightarrow> buf (buffered w b) = take (nat (max 512 (minSize w))) (buf w @ b)"
  by (auto simp: buffered_def toAdd_def within_cap_def nat_diff_int)

lemma buffered_self: "w\<lparr>buf := buf (buffered w b)\<rparr> = buffered w b"
  by (simp add: buffered_def)

lemma run_writes_gz:
  "gw w \<noteq> None \<Longrightarrow>
   \<exists>w'. run e w (map CallWrite bs) = Some w' \<and> gw w' = gw w \<and> hdr w' = hdr w
        \<and> calls w' = calls w @ map GW_Write bs"
proof (induction bs arbitrary: w)
  case Nil
  then show ?case by simp
next
  case (Cons b bs)
  let ?w1 = "snd (gw_Write e w b)"
  have s: "step e w (CallWrite b) = Some ?w1" using Cons.prems by (simp add: Write_def)
  have "gw ?w1 \<noteq> None" using Cons.prems by simp
  from Cons.IH[OF this] s show ?case by auto
qed

lemma gzBytes_map [simp]: "gzBytes (map GW_Write bs) = concat bs"
  by (induction bs) auto

lemma sinkBytes_map [simp]: "sinkBytes (map GW_Write bs) = []"
  by (induction bs) auto

text \<open>The Write that commits compressed.\<close>

lemma Write_commits_gzip:
  assumes un: "gw w = None" "\<not> ignore w" and cap: "within_cap w" and ne: "b \<noteq> []"
    and d: "fst (decide e (buffered w b)) = Gzip"
    and ok: "\<forall>i p. gzWrite e i p = (int (length p), None)"
  shows "\<exists>r w'. Write e w b = Some (r, w') \<and> gw w' \<noteq> None
       \<and> (\<exists>xs. calls w' = calls w @ xs \<and> gzBytes xs = buf w @ b \<and> sinkBytes xs = [])
       \<and> hdr w' contentLength = None \<and> hdr w' contentEncoding = Some [''gzip'']"
proof -
  let ?w1 = "buffered w b"
  let ?w2 = "snd (decide e ?w1)"
  let ?s = "snd (startGzip e ?w2)"
  have b1: "buf ?w1 \<noteq> []"
    using cap ne by (auto simp: buffered_def toAdd_def within_cap_def max_def split: if_splits)
  have sg: "fst (startGzip e ?w2) = None"
    using ok b1 by (simp add: startGzip_result)
  from Write_inv[of w e b] un cap obtain r w' where W: "Write e w b = Some (r, w')"
    by (auto simp: writer_inv_def)
  then have "map_option snd (Write e w b) = Some w'" by simp
  then have w': "w' = (if remain w b \<noteq> [] then snd (gw_Write e ?s (remain w b)) else ?s)"
    using d b1 sg
    by (simp add: Write_undecided_state[OF un cap] writeGzip_state startGzip_fields
        split: if_splits)
  have g: "gw w' \<noteq> None" using b1 by (simp add: w' startGzip_fields)
  have c: "calls w' = calls w @ ((if code w \<noteq> 0 then [RW_WriteHeader (code w)] else [])
             @ [GW_New (level w), GW_Write (buf ?w1)]
             @ (if remain w b \<noteq> [] then [GW_Write (remain w b)] else []))"
    using b1 by (simp add: w' startGzip_calls)
  have gb: "gzBytes ((if code w \<noteq> 0 then [RW_WriteHeader (code w)] else [])
             @ [GW_New (level w), GW_Write (buf ?w1)]
             @ (if remain w b \<noteq> [] then [GW_Write (remain w b)] else [])) = buf w @ b"
    using buffered_remain[of w b] by auto
  have sb: "sinkBytes ((if code w \<noteq> 0 then [RW_WriteHeader (code w)] else [])
             @ [GW_New (level w), GW_Write (buf ?w1)]
             @ (if remain w b \<noteq> [] then [GW_Write (remain w b)] else [])) = []"
    by auto
  have h: "hdr w' contentLength = None \<and> hdr w' contentEncoding = Some [''gzip'']"
    by (simp add: w' startGzip_hdr)
  from W g c gb sb h show ?thesis by blast
qed

lemma buffered_with_buf: "(buffered w b)\<lparr>buf := x\<rparr> = w\<lparr>buf := x\<rparr>"
  by (simp add: buffered_def)

lemma decide_Wait_iff:
  "fst (decide e w) = Wait \<longleftrightarrow>
     hlen (hdr w) HeaderNoCompression = 0 \<and> hget (hdr w) contentEncoding = []
     \<and> hget (hdr w) contentRange = [] \<and> declaredLength w = 0 \<and> int (length (buf w)) < minSize w"
  by (auto simp: decide_def declaredLength_def Let_def)

lemma decisionBuf_Cons:
  "take (nat (max 512 m)) (acc @ b) = a' \<Longrightarrow>
   decisionBuf m cl acc (b # bs) = (if cl = 0 \<and> int (length a') < m then decisionBuf m cl a' bs else a')"
  by (simp only: decisionBuf.simps Let_def)

lemma writes_reach_compressor:
  assumes "gw w = None" "\<not> ignore w" "within_cap w"
    and "hlen (hdr w) HeaderNoCompression = 0" "hget (hdr w) contentEncoding = []"
        "hget (hdr w) contentRange = []"
    and "\<forall>i p. gzWrite e i p = (int (length p), None)"
    and "bs \<noteq> []" "\<forall>b\<in>set bs. b \<noteq> []"
    and "declaredLength w \<ge> minSize w
         \<or> declaredLength w = 0 \<and> int (length (buf w @ concat bs)) \<ge> minSize w"
    and "contentTypeFilter w
           (effectiveType e (w\<lparr>buf := decisionBuf (minSize w) (declaredLength w) (buf w) bs\<rparr>))"
  shows "\<exists>w'. run e w (map CallWrite bs) = Some w' \<and> gw w' \<noteq> None
       \<and> (\<exists>xs. calls w' = calls w @ xs \<and> gzBytes xs = buf w @ concat bs \<and> sinkBytes xs = [])
       \<and> hdr w' contentLength = None \<and> hdr w' contentEncoding = Some [''gzip'']"
  using assms
proof (induction bs arbitrary: w)
  case Nil
  then show ?case by simp
next
  case (Cons b bs)
  let ?w1 = "buffered w b"
  note un = Cons.prems(1,2) and cap = Cons.prems(3) and hd = Cons.prems(4-6)
    and ok = Cons.prems(7) and size = Cons.prems(10) and type = Cons.prems(11)
  have ne: "b \<noteq> []" and nes: "\<forall>b\<in>set bs. b \<noteq> []" using Cons.prems(9) by auto
  have dl1: "declaredLength ?w1 = declaredLength w" by (simp add: declaredLength_def)
  have acc: "take (nat (max 512 (minSize w))) (buf w @ b) = buf ?w1"
    using buffered_buf[OF cap, of b] by simp
  show ?case
  proof (cases "declaredLength w = 0 \<and> int (length (buf ?w1)) < minSize w")
    case True
    then have dW: "fst (decide e ?w1) = Wait" using hd by (simp add: decide_Wait_iff dl1)
    have st: "step e w (CallWrite b) = Some ?w1"
      using Write_undecided_state[OF un cap, of e b] dW by simp
    have "remain w b = []"
    proof (rule ccontr)
      assume "remain w b \<noteq> []"
      from remain_full[OF cap this] True show False by (simp add: max_def split: if_splits)
    qed
    then have b1: "buf ?w1 = buf w @ b" using buffered_remain[of w b] by simp
    have bs: "bs \<noteq> []"
    proof
      assume "bs = []"
      then show False using size True b1 by simp
    qed
    have sz: "declaredLength ?w1 \<ge> minSize ?w1
         \<or> declaredLength ?w1 = 0 \<and> int (length (buf ?w1 @ concat bs)) \<ge> minSize ?w1"
      using size by (simp add: dl1 b1)
    have db: "decisionBuf (minSize w) (declaredLength w) (buf w) (b # bs)
                = decisionBuf (minSize w) (declaredLength w) (buf ?w1) bs"
      using True by (simp add: decisionBuf_Cons[OF acc] del: decisionBuf.simps)
    have ty: "contentTypeFilter ?w1
           (effectiveType e (?w1\<lparr>buf := decisionBuf (minSize ?w1) (declaredLength ?w1) (buf ?w1) bs\<rparr>))"
      using type unfolding db by (simp add: dl1 buffered_with_buf)
    from Cons.IH[of ?w1, OF _ _ buffered_cap[OF cap] _ _ _ ok bs nes sz ty] un hd
    obtain w' xs where "run e ?w1 (map CallWrite bs) = Some w'" "gw w' \<noteq> None"
      "calls w' = calls ?w1 @ xs" "gzBytes xs = buf ?w1 @ concat bs" "sinkBytes xs = []"
      "hdr w' contentLength = None" "hdr w' contentEncoding = Some [''gzip'']"
      by auto
    moreover have "run e w (map CallWrite (b # bs)) = run e ?w1 (map CallWrite bs)"
      by (simp only: list.map run.simps st option.case)
    ultimately have "run e w (map CallWrite (b # bs)) = Some w'" "gw w' \<noteq> None"
      "\<exists>ys. calls w' = calls w @ ys \<and> gzBytes ys = buf w @ concat (b # bs) \<and> sinkBytes ys = []"
      "hdr w' contentLength = None" "hdr w' contentEncoding = Some [''gzip'']"
      using b1 by simp_all
    then show ?thesis by blast
  next
    case False
    then have db: "decisionBuf (minSize w) (declaredLength w) (buf w) (b # bs) = buf ?w1"
      by (auto simp add: decisionBuf_Cons[OF acc] simp del: decisionBuf.simps)
    have ty: "contentTypeFilter w (effectiveType e ?w1)"
      using type unfolding db by (simp add: buffered_self)
    have ct: "hget (hdr w) contentType \<noteq> [] \<Longrightarrow> contentTypeFilter w (hget (hdr w) contentType)"
      using ty by (simp add: effectiveType_def)
    have "writeTest e ?w1 (declaredLength ?w1)"
      using hd size False ty ct by (auto simp: writeTest_def dl1)
    then have dG: "fst (decide e ?w1) = Gzip" by (simp add: decide_Gzip_iff)
    from Write_commits_gzip[OF un cap ne dG ok] obtain r w1 xs where
      W: "Write e w b = Some (r, w1)" and g: "gw w1 \<noteq> None"
      and c: "calls w1 = calls w @ xs" "gzBytes xs = buf w @ b" "sinkBytes xs = []"
      and h: "hdr w1 contentLength = None" "hdr w1 contentEncoding = Some [''gzip'']"
      by blast
    from run_writes_gz[OF g, of e bs] obtain w' where
      r: "run e w1 (map CallWrite bs) = Some w'" "gw w' = gw w1" "hdr w' = hdr w1"
         "calls w' = calls w1 @ map GW_Write bs" by auto
    have "calls w' = calls w @ (xs @ map GW_Write bs)" using r(4) c(1) by simp
    moreover have "gzBytes (xs @ map GW_Write bs) = buf w @ concat (b # bs)" using c(2) by simp
    moreover have "sinkBytes (xs @ map GW_Write bs) = []" using c(3) by simp
    ultimately have x: "\<exists>ys. calls w' = calls w @ ys \<and> gzBytes ys = buf w @ concat (b # bs)
                          \<and> sinkBytes ys = []"
      by blast
    have rn: "run e w (map CallWrite (b # bs)) = Some w'" using W r(1) by simp
    have g': "gw w' \<noteq> None" using g r(2) by simp
    have h': "hdr w' contentLength = None" "hdr w' contentEncoding = Some [''gzip'']"
      using h r(3) by simp_all
    from rn g' x h' show ?thesis by blast
  qed
qed

subsection \<open>A Write of no bytes\<close>

text \<open>
  A \<open>Write\<close> of no bytes with a declared length of at least \<open>minSize\<close>: \<open>startGzip\<close> sets
  the headers and, the buffer being empty, makes no compressor; the writer stays
  undecided, and the next \<open>Write\<close> finds \<^verbatim>\<open>Content-Encoding\<close> set and commits plain. With
  \<open>WriteHeader\<close> calls before and after the empty write, both codes reach the sink.
\<close>

lemma empty_write_then_plain:
  "map_option (\<lambda>w. (calls w, hdr w contentEncoding, hdr w contentLength, gw w, ignore w))
     (run witEnv declaredWriter [CallWrite [], CallWrite [1, 2, 3, 4, 5, 6, 7, 8, 9, 10]])
   = Some ([RW_Write [1, 2, 3, 4, 5, 6, 7, 8, 9, 10]], Some [''gzip''], None, None, True)"
  by code_simp

lemma empty_write_two_status_commits:
  "map_option calls
     (run witEnv declaredWriter
        [CallWriteHeader 200, CallWrite [], CallWriteHeader 500,
         CallWrite [1, 2, 3, 4, 5, 6, 7, 8, 9, 10]])
   = Some [RW_WriteHeader 200, RW_WriteHeader 500, RW_Write [1, 2, 3, 4, 5, 6, 7, 8, 9, 10]]"
  by code_simp

subsection \<open>The buffer inside Write\<close>

text \<open>
  With the cap \<open>n = max 512 minSize\<close>, the buffer after the append of \<open>Write\<close> is the first
  \<open>n\<close> bytes of the old buffer followed by the bytes of the call, and the remainder
  is what follows them.
\<close>

lemma remain_drop:
  "within_cap w \<Longrightarrow> remain w b = drop (nat (max 512 (minSize w))) (buf w @ b)"
  by (auto simp: remain_def toAdd_def within_cap_def nat_diff_int)

text \<open>
  The buffer inside \<open>Write\<close>: what an undecided writer keeps, or hands to the commit, is
  the first \<open>max 512 minSize\<close> bytes of the old buffer followed by the bytes of the call.
\<close>

lemma Write_undecided_buffer:
  assumes un: "gw w = None" "\<not> ignore w" and cap: "within_cap w"
    and W: "Write e w b = Some (r, w')"
    and Bd: "B = take (nat (max 512 (minSize w))) (buf w @ b)"
    and Rd: "R = drop (nat (max 512 (minSize w))) (buf w @ b)"
  shows "gw w' = None \<and> \<not> ignore w' \<and> buf w' = B \<and> R = []
       \<or> \<not> (gw w' = None \<and> \<not> ignore w') \<and> buf w' = []
           \<and> (\<exists>rest. newCalls w w' =
                  (if code w \<noteq> 0 then [RW_WriteHeader (code w)] else [])
                  @ (if gw w' \<noteq> None then [GW_New (level w), GW_Write B]
                     else if B = [] then [] else [RW_Write B])
                  @ rest
                \<and> (rest = []
                     \<or> R \<noteq> [] \<and> rest = [if gw w' \<noteq> None then GW_Write R else RW_Write R])
                \<and> (snd r = None \<and> R \<noteq> [] \<longrightarrow> rest \<noteq> []))"
proof -
  let ?w1 = "buffered w b"
  let ?w2 = "snd (decide e ?w1)"
  have B: "buf ?w1 = B" unfolding Bd by (rule buffered_buf[OF cap])
  have R: "remain w b = R" unfolding Rd by (rule remain_drop[OF cap])
  have full: "R \<noteq> [] \<Longrightarrow> B \<noteq> []"
    using remain_full[OF cap, of b] unfolding R B by (auto simp: max_def split: if_splits)
  obtain br w2 where d: "decide e ?w1 = (br, w2)" by (cases "decide e ?w1")
  then have w2: "w2 = ?w2" and br: "fst (decide e ?w1) = br" by simp_all
  have b2: "buf ?w2 = B" "code ?w2 = code w" "calls ?w2 = calls w" "level ?w2 = level w"
    "gw ?w2 = None" "\<not> ignore ?w2"
    using B un by simp_all
  note WU = W[unfolded Write_undecided[OF un cap] d]
  show ?thesis
  proof (cases br)
    case Wait
    then have "w' = ?w1" and lt: "int (length (buf ?w1)) < minSize w"
      using WU decide_Wait[of e ?w1] br w2 by auto
    moreover have "R = []"
    proof (rule ccontr)
      assume "R \<noteq> []"
      then have "remain w b \<noteq> []" using R by simp
      from remain_full[OF cap this] lt show False by (simp add: max_def split: if_splits)
    qed
    ultimately show ?thesis using un B by simp
  next
    case Gzip
    let ?s = "snd (startGzip e ?w2)"
    have G: "writeGzip e ?w2 b R = Some (r, w')" using WU Gzip w2 R by simp
    then have ne: "writeGzip e ?w2 b R \<noteq> None" by simp
    have m: "map_option snd (writeGzip e ?w2 b R) = Some w'" using G by simp
    show ?thesis
    proof (cases "B = []")
      case True
      then have Re: "R = []" using full by auto
      have "w' = ?s" using m Re by (simp add: writeGzip_state)
      then have "gw w' = None" "\<not> ignore w'" "buf w' = []"
        using True b2 by (simp_all add: startGzip_fields)
      then show ?thesis using True Re by simp
    next
      case False
      have gs: "gw ?s \<noteq> None" using False b2 by (simp add: startGzip_fields)
      have w': "w' = (if fst (startGzip e ?w2) = None \<and> R \<noteq> []
                      then snd (gw_Write e ?s R) else ?s)"
        using m gs by (simp add: writeGzip_state split: if_splits)
      have g: "gw w' \<noteq> None" using gs by (simp add: w')
      have b0: "buf w' = []" by (simp add: w' startGzip_fields)
      have c: "newCalls w w' = (if code w \<noteq> 0 then [RW_WriteHeader (code w)] else [])
             @ [GW_New (level w), GW_Write B]
             @ (if fst (startGzip e ?w2) = None \<and> R \<noteq> [] then [GW_Write R] else [])"
        using False b2 by (simp add: w' newCalls_def startGzip_calls)
      have rr: "snd r = None \<Longrightarrow> fst (startGzip e ?w2) = None"
        using writeGzip_result[OF ne] G by (auto split: option.splits)
      have "\<exists>rest. newCalls w w' =
                  (if code w \<noteq> 0 then [RW_WriteHeader (code w)] else [])
                  @ (if gw w' \<noteq> None then [GW_New (level w), GW_Write B]
                     else if B = [] then [] else [RW_Write B])
                  @ rest
                \<and> (rest = []
                     \<or> R \<noteq> [] \<and> rest = [if gw w' \<noteq> None then GW_Write R else RW_Write R])
                \<and> (snd r = None \<and> R \<noteq> [] \<longrightarrow> rest \<noteq> [])"
        using g c rr
        by (intro exI[of _ "if fst (startGzip e ?w2) = None \<and> R \<noteq> [] then [GW_Write R] else []"])
           auto
      then show ?thesis using g b0 by blast
    qed
  next
    case Plain
    let ?s = "snd (startPlain e ?w2)"
    have G: "writePlain e ?w2 b R = Some (r, w')" using WU Plain w2 R by simp
    have m: "map_option snd (writePlain e ?w2 b R) = Some w'" using G by simp
    have w': "w' = (if fst (startPlain e ?w2) = None \<and> R \<noteq> []
                    then snd (rw_Write e ?s R) else ?s)"
      using m by (simp add: writePlain_state)
    have g: "ignore w'" "gw w' = None" using b2 by (simp_all add: w' startPlain_fields)
    have b0: "buf w' = []" by (simp add: w' startPlain_fields)
    have c: "newCalls w w' = (if code w \<noteq> 0 then [RW_WriteHeader (code w)] else [])
             @ (if B = [] then [] else [RW_Write B])
             @ (if fst (startPlain e ?w2) = None \<and> R \<noteq> [] then [RW_Write R] else [])"
      using b2 by (simp add: w' newCalls_def startPlain_calls)
    have rr: "snd r = None \<Longrightarrow> fst (startPlain e ?w2) = None"
      using writePlain_result[of e ?w2 b R] G by (auto split: option.splits)
    have "\<exists>rest. newCalls w w' =
                  (if code w \<noteq> 0 then [RW_WriteHeader (code w)] else [])
                  @ (if gw w' \<noteq> None then [GW_New (level w), GW_Write B]
                     else if B = [] then [] else [RW_Write B])
                  @ rest
                \<and> (rest = []
                     \<or> R \<noteq> [] \<and> rest = [if gw w' \<noteq> None then GW_Write R else RW_Write R])
                \<and> (snd r = None \<and> R \<noteq> [] \<longrightarrow> rest \<noteq> [])"
      using g c rr
      by (intro exI[of _ "if fst (startPlain e ?w2) = None \<and> R \<noteq> [] then [RW_Write R] else []"])
         auto
    then show ?thesis using g b0 by blast
  qed
qed

subsection \<open>The plain commit under a blocking header\<close>

text \<open>
  With a blocking header \<open>Write\<close> commits to plain mode: it flushes the status, writes
  the buffer to the sink and, when the sink took it, the remainder.
\<close>

lemma Write_blocked:
  assumes un: "gw w = None" "\<not> ignore w" and cap: "within_cap w"
    and bl: "hlen (hdr w) HeaderNoCompression > 0 \<or> hget (hdr w) contentEncoding \<noteq> []
           \<or> hget (hdr w) contentRange \<noteq> []"
    and Bd: "B = take (nat (max 512 (minSize w))) (buf w @ b)"
    and Rd: "R = drop (nat (max 512 (minSize w))) (buf w @ b)"
    and sd: "s = sinkWrite e (length (calls w) + (if code w \<noteq> 0 then 1 else 0)) B"
  shows "\<exists>r w'. Write e w b = Some (r, w') \<and> ignore w' \<and> gw w' = None
     \<and> code w' = 0 \<and> buf w' = [] \<and> hdr w' = (hdr w)(HeaderNoCompression := None)
     \<and> calls w' = calls w @ (if code w \<noteq> 0 then [RW_WriteHeader (code w)] else [])
                    @ (if B = [] then [] else [RW_Write B])
                    @ (if R \<noteq> [] \<and> snd s = None \<and> int (length B) \<le> fst s
                       then [RW_Write R] else [])
     \<and> fst r = (if snd r = None then int (length b) else 0)
     \<and> (snd r = None \<longrightarrow> sinkBytes (newCalls w w') = buf w @ b)"
proof -
  let ?w1 = "buffered w b"
  let ?s = "snd (startPlain e ?w1)"
  have B: "buf ?w1 = B" unfolding Bd by (rule buffered_buf[OF cap])
  have R: "remain w b = R" unfolding Rd by (rule remain_drop[OF cap])
  have BR: "B @ R = buf w @ b" unfolding Bd Rd by (rule append_take_drop_id)
  have full: "R \<noteq> [] \<Longrightarrow> B \<noteq> []"
    using remain_full[OF cap, of b] unfolding R B by (auto simp: max_def split: if_splits)
  have d: "decide e ?w1 = (Plain, ?w1)" using bl by (intro decide_Plain_blocked) simp
  have W: "Write e w b = writePlain e ?w1 b R"
    by (simp add: Write_undecided[OF un cap] d R)
  have sp: "fst (startPlain e ?w1) = None \<longleftrightarrow> B = [] \<or> snd s = None \<and> int (length B) \<le> fst s"
    by (auto simp: startPlain_result B sd Let_def)
  from writePlain_commit[of e ?w1 b R] obtain r w'
    where c: "writePlain e ?w1 b R = Some (r, w')" "ignore w'" "gw w' = None"
      "hdr w' = (hdr w)(HeaderNoCompression := None)"
      "calls w' = calls w @ (if code w \<noteq> 0 then [RW_WriteHeader (code w)] else [])
                     @ (if B = [] then [] else [RW_Write B])
                     @ (if fst (startPlain e ?w1) = None \<and> R \<noteq> [] then [RW_Write R] else [])"
    using un B by auto
  have m: "map_option snd (writePlain e ?w1 b R) = Some w'" using c(1) by simp
  have w': "w' = (if fst (startPlain e ?w1) = None \<and> R \<noteq> []
                  then snd (rw_Write e ?s R) else ?s)"
    using m by (simp add: writePlain_state)
  have f: "code w' = 0" "buf w' = []" by (simp_all add: w' startPlain_fields)
  have cs: "calls w' = calls w @ (if code w \<noteq> 0 then [RW_WriteHeader (code w)] else [])
                    @ (if B = [] then [] else [RW_Write B])
                    @ (if R \<noteq> [] \<and> snd s = None \<and> int (length B) \<le> fst s
                       then [RW_Write R] else [])"
    using c(5) sp full by auto
  have mr: "map_option fst (writePlain e ?w1 b R) = Some r" using c(1) by simp
  have r1: "fst r = (if snd r = None then int (length b) else 0)"
    using mr by (auto simp: writePlain_result split: option.splits if_splits)
  have r2: "snd r = None \<Longrightarrow> fst (startPlain e ?w1) = None"
    using mr by (auto simp: writePlain_result split: option.splits if_splits)
  have sb: "sinkBytes (newCalls w w') = buf w @ b" if "snd r = None"
  proof -
    have "newCalls w w' = (if code w \<noteq> 0 then [RW_WriteHeader (code w)] else [])
                    @ (if B = [] then [] else [RW_Write B])
                    @ (if R \<noteq> [] then [RW_Write R] else [])"
      using c(5) r2[OF that] by (simp add: newCalls_def)
    then show ?thesis using BR by auto
  qed
  from W c(1-4) f cs r1 sb show ?thesis by auto
qed

text \<open>The same on the flush path, where the error of \<open>startPlain\<close> is dropped.\<close>

lemma Flush_blocked:
  assumes un: "gw w = None" "\<not> ignore w" and ne: "buf w \<noteq> []"
    and bl: "hlen (hdr w) HeaderNoCompression > 0 \<or> hget (hdr w) contentEncoding \<noteq> []
           \<or> hget (hdr w) contentRange \<noteq> []"
  shows "ignore (Flush e w) \<and> gw (Flush e w) = None \<and> code (Flush e w) = 0 \<and> buf (Flush e w) = []
     \<and> hdr (Flush e w) = (hdr (typed e w))(HeaderNoCompression := None)
     \<and> calls (Flush e w) = calls w @ (if code w \<noteq> 0 then [RW_WriteHeader (code w)] else [])
                    @ [RW_Write (buf w)] @ (if sinkFlusher e then [RW_Flush] else [])"
proof -
  have nt: "\<not> writeTest e w x" for x using bl by (auto simp: writeTest_def)
  show ?thesis using un ne
    by (simp add: Flush_def flushDecide_eq nt startPlain_fields startPlain_calls
        flushForward_calls)
qed

subsection \<open>The concrete writers\<close>

lemma witEnv_fields:
  "gzWrite witEnv i p = (int (length p), None)" "sinkWrite witEnv i p = (int (length p), None)"
  "sinkFlusher witEnv" "DetectContentType witEnv p = ''text/plain; charset=utf-8''"
  by (simp_all add: witEnv_def okEnv_def)

lemma witCfg_minSize: "cfg_minSize witCfg = 4"
  by (simp add: witCfg_def)

lemma newWriter_fields:
  "gw (newWriter witCfg Map.empty) = None" "\<not> ignore (newWriter witCfg Map.empty)"
  "buf (newWriter witCfg Map.empty) = []" "code (newWriter witCfg Map.empty) = 0"
  "level (newWriter witCfg Map.empty) = 6" "calls (newWriter witCfg Map.empty) = []"
  "minSize (newWriter witCfg Map.empty) = 4" "within_cap (newWriter witCfg Map.empty)"
  by (simp_all add: newWriter_def witCfg_def within_cap_def)

lemma waitingWriter_fields:
  "gw waitingWriter = None" "\<not> ignore waitingWriter"
  "buf waitingWriter = [1, 2]" "code waitingWriter = 0"
  "level waitingWriter = 6" "calls waitingWriter = []"
  "minSize waitingWriter = 4" "within_cap waitingWriter"
  "hlen (hdr waitingWriter) HeaderNoCompression = 0"
  "hget (hdr waitingWriter) contentEncoding = []"
  "hget (hdr waitingWriter) contentRange = []"
  "hget (hdr waitingWriter) contentLength = []"
  "hget (hdr waitingWriter) contentType = []"
  "contentTypeFilter waitingWriter ''text/plain; charset=utf-8''"
  by (simp_all add: waitingWriter_def newWriter_def witCfg_def within_cap_def hlen_def hget_def
      hadd_def)

lemma run_waitingWriter:
  "run witEnv (newWriter witCfg Map.empty) [CallWrite [1, 2]] = Some waitingWriter"
  by (simp add: Write_def witCfg_def newWriter_def Let_def hlen_def hget_def hadd_def
      atoi_def intSize_def ParseInt_def waitingWriter_def)

lemma waitingWriter_buffered:
  "buf (buffered waitingWriter (replicate 600 7)) = [1, 2] @ replicate 510 7"
  by (simp add: buffered_buf waitingWriter_fields)

lemma waitingWriter_remain: "remain waitingWriter (replicate 600 7) = replicate 90 7"
  by (simp add: remain_drop waitingWriter_fields)

lemma waitingWriter_decide:
  "decide witEnv (buffered waitingWriter (replicate 600 7))
     = (Gzip, typed witEnv (buffered waitingWriter (replicate 600 7)))"
  by (simp add: decide_def waitingWriter_buffered waitingWriter_fields Let_def atoi_empty
      effectiveType_def witEnv_fields)

lemma rangeWriter_fields:
  "gw rangeWriter = None" "\<not> ignore rangeWriter" "within_cap rangeWriter"
  "buf rangeWriter = []" "code rangeWriter = 0" "calls rangeWriter = []"
  "minSize rangeWriter = 4" "hget (hdr rangeWriter) contentRange = ''bytes 0-4/10''"
  by (simp_all add: rangeWriter_def newWriter_def witCfg_def within_cap_def hget_def hadd_def)

lemma lateRangeWriter_fields:
  "gw lateRangeWriter = None" "\<not> ignore lateRangeWriter" "within_cap lateRangeWriter"
  "buf lateRangeWriter = [1, 2]" "code lateRangeWriter = 206" "calls lateRangeWriter = []"
  "minSize lateRangeWriter = 4" "hget (hdr lateRangeWriter) contentRange = ''bytes 0-1/10''"
  by (simp_all add: lateRangeWriter_def waitingWriter_def WriteHeader_def newWriter_def witCfg_def
      within_cap_def hget_def hadd_def)

lemma run_lateRangeWriter:
  "run witEnv (newWriter witCfg Map.empty)
     [CallWrite [1, 2], CallWriteHeader 206, SetHeader contentRange [''bytes 0-1/10'']]
   = Some lateRangeWriter"
proof -
  have e: "[CallWrite [1, 2], CallWriteHeader 206, SetHeader contentRange [''bytes 0-1/10'']]
         = [CallWrite [1, 2]] @ [CallWriteHeader 206, SetHeader contentRange [''bytes 0-1/10'']]"
    by simp
  have r: "run witEnv waitingWriter
             [CallWriteHeader 206, SetHeader contentRange [''bytes 0-1/10'']]
           = Some lateRangeWriter"
    by (simp add: lateRangeWriter_def WriteHeader_def waitingWriter_fields)
  show ?thesis unfolding e run_append run_waitingWriter by (simp only: option.case r)
qed


section \<open>The claims\<close>


text \<open>
  Claim C1, as stated, fails: size and content type alone do not send a response to the
  compressor. \<open>Write\<close> first looks for the opt-out marker, \<^verbatim>\<open>Content-Encoding\<close> and
  \<^verbatim>\<open>Content-Range\<close> and commits plain when it finds one. Here \<^verbatim>\<open>Content-Range\<close> is set,
  five bytes are written with \<open>minSize\<close> 4, and the sniffed type passes the filter: the
  compressor is never made, the five bytes go to the sink, and no \<^verbatim>\<open>Content-Encoding\<close>
  is set.
\<close>

theorem content_range_is_not_compressed_counterexample:
  "int (length [1, 2, 3, 4, 5 :: byte]) \<ge> minSize rangeWriter
   \<and> contentTypeFilter rangeWriter (effectiveType witEnv (rangeWriter\<lparr>buf := [1, 2, 3, 4, 5]\<rparr>))
   \<and> map_option (\<lambda>w. (gzBytes (calls w), sinkBytes (calls w), hdr w contentEncoding, gw w))
       (run witEnv rangeWriter [CallWrite [1, 2, 3, 4, 5], CallClose])
     = Some ([], [1, 2, 3, 4, 5], None, None)"
  by code_simp

text \<open>
  Claim C1, amended. Take a writer that has written nothing, whose header map sets
  neither the opt-out marker nor \<^verbatim>\<open>Content-Encoding\<close> nor \<^verbatim>\<open>Content-Range\<close>, writes of at
  least one byte each, at least one of them, and a compressor that takes what it is
  given. If the declared \<^verbatim>\<open>Content-Length\<close> is at least \<open>minSize\<close>, or it is 0 and the
  bytes written are at least \<open>minSize\<close>, and the effective content type (the declared
  one, or the one sniffed from the buffer at the decision, \<open>decisionBuf\<close>) passes the
  filter, then the writes commit compressed; the bytes given to the compressor, in the
  order of the calls, are exactly the bytes written; the writer gives no byte to the
  sink itself; and after the writes \<^verbatim>\<open>Content-Length\<close> is absent and \<^verbatim>\<open>Content-Encoding\<close>
  is \<^verbatim>\<open>gzip\<close>.
\<close>

theorem compressor_receives_what_was_written:
  assumes "gw w = None" "\<not> ignore w" "buf w = []"
    and "hlen (hdr w) HeaderNoCompression = 0" "hget (hdr w) contentEncoding = []"
        "hget (hdr w) contentRange = []"
    and "\<forall>i p. gzWrite e i p = (int (length p), None)"
    and "bs \<noteq> []" "\<forall>b\<in>set bs. b \<noteq> []"
    and "declaredLength w \<ge> minSize w
         \<or> declaredLength w = 0 \<and> int (length (concat bs)) \<ge> minSize w"
    and "contentTypeFilter w
           (effectiveType e (w\<lparr>buf := decisionBuf (minSize w) (declaredLength w) [] bs\<rparr>))"
  shows "\<exists>w'. run e w (map CallWrite bs) = Some w' \<and> gw w' \<noteq> None
       \<and> gzBytes (newCalls w w') = concat bs \<and> sinkBytes (newCalls w w') = []
       \<and> hdr w' contentLength = None \<and> hdr w' contentEncoding = Some [''gzip'']"
proof -
  have cap: "within_cap w" using assms(3) by (simp add: within_cap_def)
  from writes_reach_compressor[OF assms(1,2) cap assms(4-9)] assms(3,10,11)
  obtain w' xs where "run e w (map CallWrite bs) = Some w'" "gw w' \<noteq> None"
      "calls w' = calls w @ xs" "gzBytes xs = concat bs" "sinkBytes xs = []"
      "hdr w' contentLength = None" "hdr w' contentEncoding = Some [''gzip'']"
    by auto
  then show ?thesis by (auto simp: newCalls_def)
qed

theorem compressor_receives_what_was_written_witness:
  "(\<exists>w'. run witEnv (newWriter witCfg Map.empty) (map CallWrite [[1, 2], [3, 4, 5]]) = Some w'
      \<and> gw w' \<noteq> None \<and> gzBytes (newCalls (newWriter witCfg Map.empty) w') = [1, 2, 3, 4, 5]
      \<and> hdr w' contentEncoding = Some [''gzip''])"
proof -
  let ?w = "newWriter witCfg Map.empty"
  have a: "gw ?w = None" "\<not> ignore ?w" "buf ?w = []"
    "hlen (hdr ?w) HeaderNoCompression = 0" "hget (hdr ?w) contentEncoding = []"
    "hget (hdr ?w) contentRange = []"
    by (simp_all add: newWriter_def hlen_def hget_def hadd_def)
  have ok: "\<forall>i p. gzWrite witEnv i p = (int (length p), None)"
    by (simp add: witEnv_def okEnv_def)
  have ne: "[[1, 2], [3, 4, 5 :: byte]] \<noteq> []" "\<forall>b\<in>set [[1, 2], [3, 4, 5 :: byte]]. b \<noteq> []"
    by simp_all
  have dl: "declaredLength ?w = 0"
    by (simp add: declaredLength_def newWriter_def hget_def hadd_def atoi_empty)
  have m: "minSize ?w = 4" by (simp add: newWriter_def witCfg_def)
  have sz: "declaredLength ?w \<ge> minSize ?w
         \<or> declaredLength ?w = 0 \<and> int (length (concat [[1, 2], [3, 4, 5 :: byte]])) \<ge> minSize ?w"
    by (simp add: dl m)
  have ty: "contentTypeFilter ?w
           (effectiveType witEnv
              (?w\<lparr>buf := decisionBuf (minSize ?w) (declaredLength ?w) [] [[1, 2], [3, 4, 5]]\<rparr>))"
    by (simp add: dl m effectiveType_def newWriter_def witCfg_def witEnv_def okEnv_def
        hget_def hadd_def)
  from compressor_receives_what_was_written[OF a ok ne sz ty] show ?thesis by auto
qed


text \<open>
  Claim C2, as stated, fails: \<open>Close\<close> on a writer that has not decided does not return
  the error of the sink but a new error made by \<^verbatim>\<open>fmt.Errorf\<close> from its message, and
  \<open>Flush\<close> has no result at all, so what \<open>startGzip\<close>, \<open>startPlain\<close> and the compressor's
  flush return inside it reaches nobody. Here the sink answers the write of the two
  buffered bytes with the error \<open>External ''broken pipe''\<close>, and \<open>Close\<close> returns
  \<open>CloseErrorf ''broken pipe''\<close>.
\<close>

theorem close_wraps_sink_error_counterexample:
  "callErrors failEnv (length (calls waitingWriter))
      (newCalls waitingWriter (snd (Close failEnv waitingWriter))) = [External ''broken pipe'']
   \<and> fst (Close failEnv waitingWriter) = Some (CloseErrorf ''broken pipe'')
   \<and> fst (Close failEnv waitingWriter) \<noteq> Some (External ''broken pipe'')"
  by (simp add: Close_def startPlain_def flushCode_def rw_Write_def waitingWriter_def
      newWriter_def failEnv_def newCalls_def callError_def Let_def)

text \<open>
  Claim C2, amended. Every error that the sink or the compressor returns to a call made
  during \<open>Write\<close> (the write of the buffer, of the rest of the bytes, a compressed write,
  a write passed through) is the error \<open>Write\<close> returns, the same value; every error the
  compressor's \<open>Close\<close> returns is the error \<open>Close\<close> returns, the same value; an error
  the sink returns to the write of the buffer during \<open>Close\<close> of a writer without
  compressor comes back as \<open>CloseErrorf\<close> of its message.
\<close>

theorem sink_errors_returned:
  assumes "within_cap w"
  shows "(\<forall>n r w' x. Write e w b = Some ((n, r), w')
            \<longrightarrow> x \<in> set (callErrors e (length (calls w)) (newCalls w w')) \<longrightarrow> r = Some x)
       \<and> (\<forall>x. x \<in> set (callErrors e (length (calls w)) (newCalls w (snd (Close e w))))
            \<longrightarrow> fst (Close e w) = Some (if gw w = None then CloseErrorf (Error x) else x))"
  using Write_errors[OF assms] Close_errors by blast

theorem sink_errors_returned_witness:
  "within_cap (newWriter witCfg Map.empty)
   \<and> (\<exists>n r w'. Write failEnv (newWriter witCfg Map.empty) [1, 2, 3, 4, 5] = Some ((n, r), w')
         \<and> External ''broken pipe''
              \<in> set (callErrors failEnv (length (calls (newWriter witCfg Map.empty)))
                       (newCalls (newWriter witCfg Map.empty) w'))
         \<and> r = Some (External ''broken pipe''))
   \<and> External ''broken pipe''
        \<in> set (callErrors failEnv (length (calls waitingWriter))
                 (newCalls waitingWriter (snd (Close failEnv waitingWriter))))
   \<and> fst (Close failEnv waitingWriter) = Some (CloseErrorf (Error (External ''broken pipe'')))"
proof -
  let ?w = "newWriter witCfg Map.empty"
  have c: "within_cap ?w" by (simp add: within_cap_def newWriter_def)
  have "map_option (\<lambda>x. calls (snd x)) (Write failEnv ?w [1, 2, 3, 4, 5])
          = Some [GW_New 6, GW_Write [1, 2, 3, 4, 5]]"
    by code_simp
  then obtain n r w' where W: "Write failEnv ?w [1, 2, 3, 4, 5] = Some ((n, r), w')"
    and cw: "calls w' = [GW_New 6, GW_Write [1, 2, 3, 4, 5]]"
    by (cases "Write failEnv ?w [1, 2, 3, 4, 5]") auto
  have m: "External ''broken pipe''
             \<in> set (callErrors failEnv (length (calls ?w)) (newCalls ?w w'))"
    using cw by (simp add: newCalls_def newWriter_def callError_def failEnv_def)
  have c2: "within_cap waitingWriter" by (simp add: within_cap_def waitingWriter_def newWriter_def)
  have m2: "External ''broken pipe''
        \<in> set (callErrors failEnv (length (calls waitingWriter))
                 (newCalls waitingWriter (snd (Close failEnv waitingWriter))))"
    by (simp add: Close_def startPlain_def flushCode_def rw_Write_def waitingWriter_def
      newWriter_def failEnv_def newCalls_def callError_def Let_def)
  have g: "gw waitingWriter = None" by (simp add: waitingWriter_def newWriter_def)
  from sink_errors_returned[OF c, of failEnv "[1, 2, 3, 4, 5]"] W m
  have r: "r = Some (External ''broken pipe'')" by blast
  from sink_errors_returned[OF c2, of failEnv "[]"] m2 g
  have "fst (Close failEnv waitingWriter) = Some (CloseErrorf (Error (External ''broken pipe'')))"
    by simp
  with c W m r m2 show ?thesis by blast
qed


text \<open>
  Claim C3 says that the opt-out marker \<^verbatim>\<open>No-Gzip-Compression\<close> is absent from the final
  response headers of every response, and the comment at the constant says the same
  (\<^verbatim>\<open>The Header is always removed from output\<close>). The code misses it when the handler has
  called \<open>WriteHeader\<close>: \<open>startPlain\<close> calls \<^verbatim>\<open>w.ResponseWriter.WriteHeader(w.code)\<close> before
  its \<^verbatim>\<open>delete\<close>, so the status line and the headers leave with the marker among them,
  and the marker is removed from the header map only afterwards. The theorem runs that
  input: a handler sets \<^verbatim>\<open>No-Gzip-Compression: 1\<close>, calls \<^verbatim>\<open>WriteHeader(200)\<close> and writes
  ten bytes, and the writer is closed.
\<close>

theorem marker_leaves_with_status:
  "map_option
     (\<lambda>w. (calls w, map_option (\<lambda>s. (fst s, snd s HeaderNoCompression)) (wire w),
           hdr w HeaderNoCompression, ignore w))
     (run witEnv (newWriter witCfg Map.empty)
        [SetHeader HeaderNoCompression [''1''], CallWriteHeader 200,
         CallWrite [1, 2, 3, 4, 5, 6, 7, 8, 9, 10], CallClose])
   = Some ([RW_WriteHeader 200, RW_Write [1, 2, 3, 4, 5, 6, 7, 8, 9, 10]],
           Some (200, Some [''1'']), None, True)"
  by code_simp


text \<open>
  Claim C4, as stated, fails: not every sequence of calls has a single status commit
  ahead of the body. \<open>Close\<close> of a compressing writer sets \<^verbatim>\<open>w.gw = nil\<close> and leaves
  \<open>ignore\<close> false, and \<open>startGzip\<close> and \<open>startPlain\<close> both set \<^verbatim>\<open>w.code = 0\<close>, after which
  \<open>WriteHeader\<close> records a code again; a later \<open>Close\<close> then runs \<open>startPlain\<close> and commits
  the new code. Here the sink receives \<^verbatim>\<open>WriteHeader(200)\<close>, the compressed body, and
  then \<^verbatim>\<open>WriteHeader(500)\<close>.
\<close>

theorem second_status_after_close_counterexample:
  "map_option (\<lambda>w. (calls w, length (filter isWriteHeader (calls w))))
     (run witEnv (newWriter witCfg Map.empty)
        [CallWriteHeader 200, CallWrite [1, 2, 3, 4, 5], CallClose, CallWriteHeader 500, CallClose])
   = Some ([RW_WriteHeader 200, GW_New 6, GW_Write [1, 2, 3, 4, 5], GW_Close, RW_WriteHeader 500], 2)"
  by code_simp

text \<open>
  Claim C4, amended. For every sequence of \<open>WriteHeader\<close>, \<open>Write\<close> of at least one byte
  and \<open>Flush\<close> calls and changes of the header map, ended or not by one \<open>Close\<close>: the
  writer calls \<^verbatim>\<open>WriteHeader\<close> on the sink at most once; when it does, that call is the
  first call it makes on the sink or the compressor, so it comes before every body
  byte, and its code is the first code other than 0 that the handler passed to
  \<open>WriteHeader\<close>.
\<close>

theorem status_committed_once_and_first:
  assumes "CallClose \<notin> set pre" and "\<forall>c\<in>set pre. nonEmptyWrite c"
    and "post = [] \<or> post = [CallClose]"
  shows "\<exists>w. run e (newWriter c h) (pre @ post) = Some w
       \<and> (filter isWriteHeader (calls w) = []
            \<or> firstCode pre \<noteq> 0 \<and> take 1 (calls w) = [RW_WriteHeader (firstCode pre)]
               \<and> filter isWriteHeader (calls w) = [RW_WriteHeader (firstCode pre)])"
proof -
  from run_status[OF newWriter_status assms(1,2), of e c h] obtain w1 where
    r: "run e (newWriter c h) pre = Some w1" and s: "statusInv w1 (firstCode pre)" by auto
  from assms(3) show ?thesis
  proof
    assume "post = []"
    then show ?thesis using r s by (simp add: statusInv_def statusOnce_def)
  next
    assume "post = [CallClose]"
    then show ?thesis using r Close_status[OF s, of e]
      by (simp add: run_append statusOnce_def)
  qed
qed

theorem status_committed_once_and_first_witness:
  "(\<exists>w. run witEnv (newWriter witCfg Map.empty)
             ([CallWriteHeader 201, CallWrite [1, 2, 3, 4, 5], CallWriteHeader 500, CallFlush]
              @ [CallClose]) = Some w
          \<and> take 1 (calls w) = [RW_WriteHeader 201]
          \<and> filter isWriteHeader (calls w) = [RW_WriteHeader 201])"
proof -
  let ?pre = "[CallWriteHeader 201, CallWrite [1, 2, 3, 4, 5], CallWriteHeader 500, CallFlush]"
  have a: "CallClose \<notin> set ?pre" "\<forall>c\<in>set ?pre. nonEmptyWrite c" by simp_all
  have b: "[CallClose] = [] \<or> [CallClose] = [CallClose]" by simp
  have f: "firstCode ?pre = 201" by simp
  have n: "map_option (\<lambda>w. filter isWriteHeader (calls w) = [])
            (run witEnv (newWriter witCfg Map.empty) (?pre @ [CallClose])) = Some False"
    by code_simp
  from status_committed_once_and_first[OF a b, of witEnv witCfg Map.empty] n f
  show ?thesis by auto
qed

text \<open>
  Claim C5. In a writer that has not decided, when \<^verbatim>\<open>Content-Range\<close> or
  \<^verbatim>\<open>Content-Encoding\<close> is set (\<^verbatim>\<open>Get\<close> gives a non-empty value) or the opt-out marker
  \<^verbatim>\<open>No-Gzip-Compression\<close> has a value, a \<open>Write\<close> of any bytes, and a \<open>Flush\<close> with bytes
  in the buffer, commit to plain mode: the writer passes through from then on, and
  neither that call nor any later call of the handler makes a call on a compressor or
  its factory. Nothing is assumed of the size or the content type.

  The commit is the plain commit: the status is cleared and the buffer emptied, the marker
  is removed from the header map, and the calls on the sink are the pending status, if
  there is one, followed by the buffer. On the write path the buffer is \<open>B\<close>, the first
  \<open>max 512 minSize\<close> bytes of the old buffer followed by \<open>b\<close>; the bytes \<open>R\<close> after them are
  written next, when there are some and the sink took \<open>B\<close> whole and without an error;
  \<open>Write\<close> returns \<open>len b\<close> with no error or 0 with one, and when it reports no error the
  sink has been given the old buffer followed by \<open>b\<close>. On the flush path the buffer is
  written as it is, the content type is sniffed into the header map first where the map
  has none, and the sink is flushed if it is a flusher.
\<close>

theorem blocking_header_commits_plain:
  assumes "gw w = None" "\<not> ignore w" "within_cap w"
    and "hlen (hdr w) HeaderNoCompression > 0 \<or> hget (hdr w) contentEncoding \<noteq> []
           \<or> hget (hdr w) contentRange \<noteq> []"
    and "c = CallWrite b \<or> c = CallFlush \<and> buf w \<noteq> []"
  shows "\<exists>w'. step e w c = Some w' \<and> ignore w' \<and> gw w' = None
            \<and> filter isGz (calls w') = filter isGz (calls w)
            \<and> (\<forall>cs. \<exists>w''. run e w' cs = Some w'' \<and> ignore w'' \<and> gw w'' = None
                   \<and> filter isGz (calls w'') = filter isGz (calls w))
            \<and> code w' = 0 \<and> buf w' = []
            \<and> (c = CallWrite b \<longrightarrow>
                 (\<exists>r B R s. Write e w b = Some (r, w')
                    \<and> B = take (nat (max 512 (minSize w))) (buf w @ b)
                    \<and> R = drop (nat (max 512 (minSize w))) (buf w @ b)
                    \<and> s = sinkWrite e (length (calls w) + (if code w \<noteq> 0 then 1 else 0)) B
                    \<and> hdr w' = (hdr w)(HeaderNoCompression := None)
                    \<and> calls w' = calls w
                         @ (if code w \<noteq> 0 then [RW_WriteHeader (code w)] else [])
                         @ (if B = [] then [] else [RW_Write B])
                         @ (if R \<noteq> [] \<and> snd s = None \<and> int (length B) \<le> fst s
                            then [RW_Write R] else [])
                    \<and> fst r = (if snd r = None then int (length b) else 0)
                    \<and> (snd r = None \<longrightarrow> sinkBytes (newCalls w w') = buf w @ b)))
            \<and> (c = CallFlush \<longrightarrow>
                 hdr w' = (hdr (typed e w))(HeaderNoCompression := None)
                 \<and> calls w' = calls w
                      @ (if code w \<noteq> 0 then [RW_WriteHeader (code w)] else [])
                      @ [RW_Write (buf w)] @ (if sinkFlusher e then [RW_Flush] else []))"
proof -
  have later: "\<forall>cs. \<exists>w''. run e w' cs = Some w'' \<and> ignore w'' \<and> gw w'' = None
                   \<and> filter isGz (calls w'') = filter isGz (calls w)"
    if "ignore w'" "gw w' = None" "filter isGz (calls w') = filter isGz (calls w)" for w'
    using run_plain[OF that(1,2), of e] that(3) by auto
  show ?thesis
  proof (cases "c = CallWrite b")
    case True
    define B where "B = take (nat (max 512 (minSize w))) (buf w @ b)"
    define R where "R = drop (nat (max 512 (minSize w))) (buf w @ b)"
    define s where "s = sinkWrite e (length (calls w) + (if code w \<noteq> 0 then 1 else 0)) B"
    from Write_blocked[OF assms(1-4) B_def R_def s_def] obtain r w'
      where W: "Write e w b = Some (r, w')" "ignore w'" "gw w' = None" "code w' = 0" "buf w' = []"
        and H: "hdr w' = (hdr w)(HeaderNoCompression := None)"
        and C: "calls w' = calls w
             @ (if code w \<noteq> 0 then [RW_WriteHeader (code w)] else [])
             @ (if B = [] then [] else [RW_Write B])
             @ (if R \<noteq> [] \<and> snd s = None \<and> int (length B) \<le> fst s then [RW_Write R] else [])"
        and Rs: "fst r = (if snd r = None then int (length b) else 0)"
          "snd r = None \<longrightarrow> sinkBytes (newCalls w w') = buf w @ b"
      by (elim exE conjE) (rule that)
    have st: "step e w c = Some w'" using True W(1) by simp
    have g: "filter isGz (calls w') = filter isGz (calls w)" unfolding C by simp
    have wr0: "\<exists>r B R s. Write e w b = Some (r, w')
                    \<and> B = take (nat (max 512 (minSize w))) (buf w @ b)
                    \<and> R = drop (nat (max 512 (minSize w))) (buf w @ b)
                    \<and> s = sinkWrite e (length (calls w) + (if code w \<noteq> 0 then 1 else 0)) B
                    \<and> hdr w' = (hdr w)(HeaderNoCompression := None)
                    \<and> calls w' = calls w
                         @ (if code w \<noteq> 0 then [RW_WriteHeader (code w)] else [])
                         @ (if B = [] then [] else [RW_Write B])
                         @ (if R \<noteq> [] \<and> snd s = None \<and> int (length B) \<le> fst s
                            then [RW_Write R] else [])
                    \<and> fst r = (if snd r = None then int (length b) else 0)
                    \<and> (snd r = None \<longrightarrow> sinkBytes (newCalls w w') = buf w @ b)"
      by (intro exI[of _ r] exI[of _ B] exI[of _ R] exI[of _ s] conjI)
         (fact W(1) B_def R_def s_def H C Rs)+
    have fl: "c = CallFlush \<longrightarrow>
                 hdr w' = (hdr (typed e w))(HeaderNoCompression := None)
                 \<and> calls w' = calls w
                      @ (if code w \<noteq> 0 then [RW_WriteHeader (code w)] else [])
                      @ [RW_Write (buf w)] @ (if sinkFlusher e then [RW_Flush] else [])"
      using True by simp
    show ?thesis
      by (rule exI[of _ w'], intro conjI)
         (use st W(2-5) g later[OF W(2,3) g] wr0 fl in \<open>simp_all only: simp_thms\<close>)
  next
    case False
    then have c: "c = CallFlush" and ne: "buf w \<noteq> []" using assms(5) by auto
    note F = Flush_blocked[OF assms(1,2) ne assms(4), of e]
    have s: "step e w c = Some (Flush e w)" using c by simp
    have g: "filter isGz (calls (Flush e w)) = filter isGz (calls w)" using F by simp
    from F have i: "ignore (Flush e w)" "gw (Flush e w) = None" by simp_all
    have wr: "c = CallWrite b \<longrightarrow> X" for X using False by simp
    show ?thesis
      by (rule exI[of _ "Flush e w"], intro conjI)
         (use s F g later[OF i g] wr in \<open>simp_all only: simp_thms\<close>)
  qed
qed

theorem blocking_header_commits_plain_witness:
  "gw rangeWriter = None \<and> \<not> ignore rangeWriter \<and> within_cap rangeWriter
   \<and> hget (hdr rangeWriter) contentRange \<noteq> []
   \<and> (\<exists>w'. step witEnv rangeWriter (CallWrite [1, 2, 3, 4, 5]) = Some w' \<and> ignore w'
          \<and> gw w' = None \<and> filter isGz (calls w') = [] \<and> calls w' = [RW_Write [1, 2, 3, 4, 5]])
   \<and> run witEnv (newWriter witCfg Map.empty)
        [CallWrite [1, 2], CallWriteHeader 206, SetHeader contentRange [''bytes 0-1/10'']]
      = Some lateRangeWriter
   \<and> gw lateRangeWriter = None \<and> \<not> ignore lateRangeWriter \<and> within_cap lateRangeWriter
   \<and> hget (hdr lateRangeWriter) contentRange \<noteq> [] \<and> buf lateRangeWriter = [1, 2]
   \<and> (\<exists>w'. step witEnv lateRangeWriter (CallWrite (replicate 600 7)) = Some w'
          \<and> ignore w' \<and> gw w' = None \<and> code w' = 0 \<and> buf w' = []
          \<and> calls w' = [RW_WriteHeader 206, RW_Write ([1, 2] @ replicate 510 7),
                         RW_Write (replicate 90 7)])
   \<and> (\<exists>w'. step witEnv lateRangeWriter CallFlush = Some w'
          \<and> ignore w' \<and> gw w' = None \<and> code w' = 0 \<and> buf w' = []
          \<and> calls w' = [RW_WriteHeader 206, RW_Write [1, 2], RW_Flush])"
proof -
  let ?a = "[1, 2, 3, 4, 5] :: bytes"
  let ?b = "replicate 600 7 :: bytes"
  have b0: "hlen (hdr rangeWriter) HeaderNoCompression > 0
      \<or> hget (hdr rangeWriter) contentEncoding \<noteq> [] \<or> hget (hdr rangeWriter) contentRange \<noteq> []"
    by (simp add: rangeWriter_fields)
  have c0: "CallWrite ?a = CallWrite ?a \<or> CallWrite ?a = CallFlush \<and> buf rangeWriter \<noteq> []"
    by simp
  have A: "\<exists>w'. step witEnv rangeWriter (CallWrite ?a) = Some w' \<and> ignore w'
          \<and> gw w' = None \<and> filter isGz (calls w') = [] \<and> calls w' = [RW_Write ?a]"
    using blocking_header_commits_plain[OF rangeWriter_fields(1-3) b0 c0, of witEnv]
    by (auto simp: rangeWriter_fields witEnv_fields)
  have b1: "hlen (hdr lateRangeWriter) HeaderNoCompression > 0
      \<or> hget (hdr lateRangeWriter) contentEncoding \<noteq> []
      \<or> hget (hdr lateRangeWriter) contentRange \<noteq> []"
    by (simp add: lateRangeWriter_fields)
  have c1: "CallWrite ?b = CallWrite ?b \<or> CallWrite ?b = CallFlush \<and> buf lateRangeWriter \<noteq> []"
    by simp
  have B: "\<exists>w'. step witEnv lateRangeWriter (CallWrite ?b) = Some w'
          \<and> ignore w' \<and> gw w' = None \<and> code w' = 0 \<and> buf w' = []
          \<and> calls w' = [RW_WriteHeader 206, RW_Write ([1, 2] @ replicate 510 7),
                         RW_Write (replicate 90 7)]"
    using blocking_header_commits_plain[OF lateRangeWriter_fields(1-3) b1 c1, of witEnv]
    by (auto simp: lateRangeWriter_fields witEnv_fields)
  have c2: "CallFlush = CallWrite [] \<or> CallFlush = CallFlush \<and> buf lateRangeWriter \<noteq> []"
    by (simp add: lateRangeWriter_fields)
  have C: "\<exists>w'. step witEnv lateRangeWriter CallFlush = Some w'
          \<and> ignore w' \<and> gw w' = None \<and> code w' = 0 \<and> buf w' = []
          \<and> calls w' = [RW_WriteHeader 206, RW_Write [1, 2], RW_Flush]"
    using blocking_header_commits_plain[OF lateRangeWriter_fields(1-3) b1 c2, of witEnv]
    by (auto simp: lateRangeWriter_fields witEnv_fields)
  from A B C run_lateRangeWriter show ?thesis
    by (simp add: rangeWriter_fields lateRangeWriter_fields del: run.simps)
qed





text \<open>
  Claim C7, as stated, fails in its last part: the second \<open>Close\<close> is not always a no-op.
  \<open>Close\<close> of a compressing writer sets \<^verbatim>\<open>w.gw = nil\<close> and leaves \<open>ignore\<close> false, so the
  second \<open>Close\<close> runs \<open>startPlain\<close>, which hands a status code recorded after the
  compressed commit to the sink. Here five bytes are written (\<open>minSize\<close> is 4, the writer
  commits compressed), then \<^verbatim>\<open>WriteHeader(404)\<close> is called; the first \<open>Close\<close> returns nil,
  and the second \<open>Close\<close> calls \<^verbatim>\<open>WriteHeader(404)\<close> on the sink.
\<close>

theorem second_close_flushes_status_counterexample:
  "map_option (\<lambda>w. fst (Close witEnv w))
     (run witEnv (newWriter witCfg Map.empty) [CallWrite [1, 2, 3, 4, 5], CallWriteHeader 404])
     = Some None
   \<and> map_option (\<lambda>w. (fst (Close witEnv w), newCalls w (snd (Close witEnv w))))
       (run witEnv (newWriter witCfg Map.empty)
          [CallWrite [1, 2, 3, 4, 5], CallWriteHeader 404, CallClose])
     = Some (None, [RW_WriteHeader 404])"
  by code_simp

text \<open>
  Claim C7, amended. For every writer a handler can reach, a second \<open>Close\<close> after a
  \<open>Close\<close> that returned nil returns nil, releases no compressor, writes no buffered byte
  and no other byte to the sink: it makes no call at all, except that after the \<open>Close\<close>
  of a compressing writer with a status code recorded since the commit it hands that
  code to the sink.
\<close>

theorem second_close_writes_nothing:
  assumes "run e (newWriter c h) cs = Some w" and "Close e w = (None, w1)"
  shows "fst (Close e w1) = None
       \<and> (newCalls w1 (snd (Close e w1)) = []
            \<or> gw w \<noteq> None \<and> code w \<noteq> 0
               \<and> newCalls w1 (snd (Close e w1)) = [RW_WriteHeader (code w)])"
proof -
  from run_inv[OF newWriter_inv, of e c h cs] assms(1) have i: "writer_inv w" by auto
  show ?thesis
  proof (cases "ignore w")
    case True
    then have "w1 = w" using assms(2) by (simp add: Close_def)
    then show ?thesis using True i by (auto simp: Close_def newCalls_def writer_inv_def)
  next
    case False
    show ?thesis
    proof (cases "gw w = None")
      case True
      then have "w1 = snd (startPlain e w)"
        using assms(2) False by (auto simp: Close_def split: prod.splits option.splits)
      then have "ignore w1" "gw w1 = None" "buf w1 = []" using True by (simp_all add: startPlain_fields)
      then show ?thesis by (simp add: Close_def newCalls_def)
    next
      case g: False
      then have b: "buf w = []" using i by (simp add: writer_inv_def)
      have w1: "w1 = w\<lparr>calls := calls w @ [GW_Close], gw := None\<rparr>"
        using assms(2) False g by (simp add: Close_def)
      have "\<not> ignore w1" "gw w1 = None" "buf w1 = []" "code w1 = code w"
        using False b by (simp_all add: w1)
      then show ?thesis using g
        by (auto simp: Close_undecided newCalls_startPlain startPlain_result)
    qed
  qed
qed

theorem second_close_writes_nothing_witness:
  "(\<exists>w w1. run witEnv (newWriter witCfg Map.empty) [CallWrite [1, 2, 3, 4, 5]] = Some w
      \<and> Close witEnv w = (None, w1) \<and> fst (Close witEnv w1) = None
      \<and> newCalls w1 (snd (Close witEnv w1)) = [])"
proof -
  have "map_option (\<lambda>w. (fst (Close witEnv w), gw w, code w))
     (run witEnv (newWriter witCfg Map.empty) [CallWrite [1, 2, 3, 4, 5]])
     = Some (None, Some (GzipWriter 6), 0)"
    by code_simp
  then obtain w where w: "run witEnv (newWriter witCfg Map.empty) [CallWrite [1, 2, 3, 4, 5]] = Some w"
    and c: "fst (Close witEnv w) = None" and k: "code w = 0"
    by (cases "run witEnv (newWriter witCfg Map.empty) [CallWrite [1, 2, 3, 4, 5]]") auto
  obtain w1 where w1: "Close witEnv w = (None, w1)" using c by (cases "Close witEnv w") auto
  from second_close_writes_nothing[OF w w1] k w w1 show ?thesis by auto
qed


text \<open>
  Claim C8 says that a request is admitted exactly when its method is not \<^verbatim>\<open>HEAD\<close> and
  the weight of the gzip entry, its \<^verbatim>\<open>q\<close> annotation clamped or 1.0 without one, is
  above 0. The code misses it for an entry with a part after the annotation:
  \<^verbatim>\<open>parseCoding\<close> sets \<^verbatim>\<open>qvalue = DefaultQValue\<close> at the start of every round of its loop,
  so the round for the last part puts 1.0 over what the \<^verbatim>\<open>q\<close> annotation gave. The
  theorem runs the request \<^verbatim>\<open>GET\<close> with \<^verbatim>\<open>Accept-Encoding: gzip;q=0;x=1\<close>: the weight is
  1.0 and the request is admitted, whatever \<^verbatim>\<open>strconv.ParseFloat\<close> is.
\<close>

theorem trailing_parameter_resets_qvalue:
  "parseCoding pf ''gzip;q=0;x=1'' = (''gzip'', Finite 1, snd (pf ''0''))
   \<and> parseEncodingGzip pf ''gzip;q=0;x=1'' = Finite 1
   \<and> acceptsGzip pf refusedGzip"
proof -
  have l: "parseEncodingGzip_loop pf ''gzip;q=0;x=1'' = Finite 1"
    by (subst parseEncodingGzip_loop.simps) (simp add: stop_ex parseCoding_ex)
  then have g: "parseEncodingGzip pf ''gzip;q=0;x=1'' = Finite 1"
    by (simp add: parseEncodingGzip_def trim_ex)
  then have "acceptsGzip pf refusedGzip"
    by (simp add: acceptsGzip_def refusedGzip_def hget_def)
  with parseCoding_ex g show ?thesis by simp
qed


text \<open>
  Claim C9. \<open>Flush\<close> on a writer that has not decided: with an empty buffer it changes
  nothing and calls neither the compressor nor the sink. With a non-empty buffer it
  commits, compressed exactly when the test of the write path (\<open>writeTest\<close>, tied to
  \<open>Write\<close> by lemmas \<open>decide_Gzip_iff\<close> and \<open>Write_compresses_iff\<close>) holds with the declared
  \<^verbatim>\<open>Content-Length\<close> replaced by \<open>minSize\<close> when it is 0, plain otherwise; then it flushes
  the path it chose: the compressor and the sink (when the sink is a flusher) after a
  compressed commit, the sink alone after a plain one. So a response with no declared
  length, no blocking header and an eligible type commits compressed whatever the
  number of buffered bytes.
\<close>

theorem flush_of_undecided_writer:
  assumes "gw w = None" "\<not> ignore w"
  shows "(buf w = [] \<longrightarrow> Flush e w = w)
       \<and> (buf w \<noteq> [] \<longrightarrow>
            (if writeTest e w (if declaredLength w = 0 then minSize w else declaredLength w)
             then gw (Flush e w) \<noteq> None \<and> \<not> ignore (Flush e w)
                  \<and> calls (Flush e w) =
                      calls w @ (if code w \<noteq> 0 then [RW_WriteHeader (code w)] else [])
                        @ [GW_New (level w), GW_Write (buf w), GW_Flush]
                        @ (if sinkFlusher e then [RW_Flush] else [])
             else gw (Flush e w) = None \<and> ignore (Flush e w)
                  \<and> calls (Flush e w) =
                      calls w @ (if code w \<noteq> 0 then [RW_WriteHeader (code w)] else [])
                        @ [RW_Write (buf w)]
                        @ (if sinkFlusher e then [RW_Flush] else [])))
       \<and> (buf w \<noteq> [] \<and> declaredLength w = 0 \<and> hlen (hdr w) HeaderNoCompression = 0
            \<and> hget (hdr w) contentEncoding = [] \<and> hget (hdr w) contentRange = []
            \<and> contentTypeFilter w (effectiveType e w)
          \<longrightarrow> gw (Flush e w) \<noteq> None)"
proof -
  have a: "buf w = [] \<longrightarrow> Flush e w = w" using assms by (simp add: Flush_def)
  have F: "buf w \<noteq> [] \<Longrightarrow> Flush e w = flushForward e (flushDecide e w)"
    using assms by (simp add: Flush_def)
  have b: "buf w \<noteq> [] \<longrightarrow>
            (if writeTest e w (if declaredLength w = 0 then minSize w else declaredLength w)
             then gw (Flush e w) \<noteq> None \<and> \<not> ignore (Flush e w)
                  \<and> calls (Flush e w) =
                      calls w @ (if code w \<noteq> 0 then [RW_WriteHeader (code w)] else [])
                        @ [GW_New (level w), GW_Write (buf w), GW_Flush]
                        @ (if sinkFlusher e then [RW_Flush] else [])
             else gw (Flush e w) = None \<and> ignore (Flush e w)
                  \<and> calls (Flush e w) =
                      calls w @ (if code w \<noteq> 0 then [RW_WriteHeader (code w)] else [])
                        @ [RW_Write (buf w)]
                        @ (if sinkFlusher e then [RW_Flush] else []))"
    using assms
    by (auto simp: F flushDecide_eq flushForward_calls startGzip_fields startGzip_calls
        startPlain_fields startPlain_calls)
  have c: "buf w \<noteq> [] \<and> declaredLength w = 0 \<and> hlen (hdr w) HeaderNoCompression = 0
            \<and> hget (hdr w) contentEncoding = [] \<and> hget (hdr w) contentRange = []
            \<and> contentTypeFilter w (effectiveType e w)
          \<longrightarrow> gw (Flush e w) \<noteq> None"
    using b by (auto simp: writeTest_def effectiveType_def split: if_splits)
  from a b c show ?thesis by blast
qed

theorem flush_of_undecided_writer_witness:
  "gw waitingWriter = None \<and> \<not> ignore waitingWriter \<and> buf waitingWriter \<noteq> []
   \<and> int (length (buf waitingWriter)) < minSize waitingWriter
   \<and> gw (Flush witEnv waitingWriter) \<noteq> None
   \<and> calls (Flush witEnv waitingWriter) = [GW_New 6, GW_Write [1, 2], GW_Flush, RW_Flush]"
proof -
  have h: "gw waitingWriter = None" "\<not> ignore waitingWriter"
    by (simp_all add: waitingWriter_def newWriter_def)
  have t: "writeTest witEnv waitingWriter
             (if declaredLength waitingWriter = 0 then minSize waitingWriter
              else declaredLength waitingWriter)"
    by (simp add: writeTest_def declaredLength_def waitingWriter_def newWriter_def witCfg_def
        witEnv_def okEnv_def effectiveType_def hlen_def hget_def hadd_def atoi_empty)
  from flush_of_undecided_writer[OF h, of witEnv] t show ?thesis
    by (simp add: waitingWriter_def newWriter_def witCfg_def witEnv_def okEnv_def)
qed

text \<open>
  Claim C10. In every writer a handler can reach the buffer holds at most
  \<open>max 512 minSize\<close> bytes, and \<open>Write\<close> returns (it does not panic). Whenever \<open>Write\<close>
  is called on a writer that has not decided and leaves it undecided, it returns
  \<open>(len b, nil)\<close> and the buffer afterwards is the buffer before followed by all of \<open>b\<close>:
  no byte of the call is kept out of the buffer, so none is dropped.

  The cap is the cap of \<open>Write\<close> itself. Called on a writer that has not decided,
  \<open>Write\<close> appends to the buffer only up to \<open>max 512 minSize\<close> bytes: with \<open>B\<close> the first
  \<open>max 512 minSize\<close> bytes of the old buffer followed by \<open>b\<close>, and \<open>R\<close> the bytes after
  them, the buffer after the append is \<open>B\<close> and the remainder in hand is \<open>R\<close>. Either the
  writer stays undecided, the buffer is \<open>B\<close> and \<open>R\<close> is empty; or the writer commits,
  the buffer is emptied, and the calls of this \<open>Write\<close> are the pending status, then \<open>B\<close> in
  one write (to a new compressor, or to the sink when \<open>B\<close> is not empty), then at most
  one write of \<open>R\<close> to the same destination, which is made whenever \<open>Write\<close> reports no
  error and \<open>R\<close> is not empty.
\<close>

theorem undecided_write_keeps_every_byte:
  "\<exists>w. run e (newWriter c h) cs = Some w
      \<and> int (length (buf w)) \<le> max 512 (cfg_minSize c)
      \<and> (\<exists>r w'. Write e w b = Some (r, w')
            \<and> (gw w = None \<and> \<not> ignore w \<and> gw w' = None \<and> \<not> ignore w'
                 \<longrightarrow> r = (int (length b), None) \<and> buf w' = buf w @ b)
            \<and> (gw w = None \<and> \<not> ignore w
                 \<longrightarrow> (\<exists>B R. B = take (nat (max 512 (cfg_minSize c))) (buf w @ b)
                        \<and> R = drop (nat (max 512 (cfg_minSize c))) (buf w @ b)
                        \<and> buf (buffered w b) = B \<and> remain w b = R
                        \<and> int (length B) \<le> max 512 (cfg_minSize c)
                        \<and> (gw w' = None \<and> \<not> ignore w' \<and> buf w' = B \<and> R = []
                           \<or> \<not> (gw w' = None \<and> \<not> ignore w') \<and> buf w' = []
                             \<and> (\<exists>rest. newCalls w w' =
                                    (if code w \<noteq> 0 then [RW_WriteHeader (code w)] else [])
                                    @ (if gw w' \<noteq> None then [GW_New (level w), GW_Write B]
                                       else if B = [] then [] else [RW_Write B])
                                    @ rest
                                  \<and> (rest = []
                                       \<or> R \<noteq> []
                                         \<and> rest = [if gw w' \<noteq> None then GW_Write R
                                                    else RW_Write R])
                                  \<and> (snd r = None \<and> R \<noteq> [] \<longrightarrow> rest \<noteq> []))))))"
proof -
  from run_inv[OF newWriter_inv, of e c h cs] obtain w
    where w: "run e (newWriter c h) cs = Some w" "writer_inv w" "minSize w = minSize (newWriter c h)"
    by auto
  have ms: "minSize w = cfg_minSize c" using w(3) by (simp add: newWriter_def)
  have cap: "within_cap w" using w(2) by (simp add: writer_inv_def)
  from Write_inv[OF w(2), of e b] obtain r w' where W: "Write e w b = Some (r, w')" by auto
  have a: "gw w = None \<and> \<not> ignore w \<and> gw w' = None \<and> \<not> ignore w'
          \<longrightarrow> r = (int (length b), None) \<and> buf w' = buf w @ b"
    using Write_still_undecided[of w e b r w'] W w(2) by (auto simp: writer_inv_def)
  have b: "int (length (buf w)) \<le> max 512 (cfg_minSize c)"
    using cap ms by (simp add: within_cap_def)
  have l: "int (length (take (nat (max 512 (cfg_minSize c))) (buf w @ b))) \<le> max 512 (cfg_minSize c)"
    by simp
  have d: "gw w = None \<and> \<not> ignore w
         \<longrightarrow> (\<exists>B R. B = take (nat (max 512 (cfg_minSize c))) (buf w @ b)
                        \<and> R = drop (nat (max 512 (cfg_minSize c))) (buf w @ b)
                        \<and> buf (buffered w b) = B \<and> remain w b = R
                        \<and> int (length B) \<le> max 512 (cfg_minSize c)
                        \<and> (gw w' = None \<and> \<not> ignore w' \<and> buf w' = B \<and> R = []
                           \<or> \<not> (gw w' = None \<and> \<not> ignore w') \<and> buf w' = []
                             \<and> (\<exists>rest. newCalls w w' =
                                    (if code w \<noteq> 0 then [RW_WriteHeader (code w)] else [])
                                    @ (if gw w' \<noteq> None then [GW_New (level w), GW_Write B]
                                       else if B = [] then [] else [RW_Write B])
                                    @ rest
                                  \<and> (rest = []
                                       \<or> R \<noteq> []
                                         \<and> rest = [if gw w' \<noteq> None then GW_Write R
                                                    else RW_Write R])
                                  \<and> (snd r = None \<and> R \<noteq> [] \<longrightarrow> rest \<noteq> []))))"
  proof (intro impI exI conjI)
    assume un: "gw w = None \<and> \<not> ignore w"
    show "take (nat (max 512 (cfg_minSize c))) (buf w @ b) = take (nat (max 512 (cfg_minSize c))) (buf w @ b)" ..
    show "drop (nat (max 512 (cfg_minSize c))) (buf w @ b) = drop (nat (max 512 (cfg_minSize c))) (buf w @ b)" ..
    show "buf (buffered w b) = take (nat (max 512 (cfg_minSize c))) (buf w @ b)"
      using buffered_buf[OF cap, of b] ms by simp
    show "remain w b = drop (nat (max 512 (cfg_minSize c))) (buf w @ b)"
      using remain_drop[OF cap, of b] ms by simp
    show "int (length (take (nat (max 512 (cfg_minSize c))) (buf w @ b))) \<le> max 512 (cfg_minSize c)"
      by (rule l)
    from un have u1: "gw w = None" and u2: "\<not> ignore w" by simp_all
    show "gw w' = None \<and> \<not> ignore w' \<and> buf w' = take (nat (max 512 (cfg_minSize c))) (buf w @ b)
             \<and> drop (nat (max 512 (cfg_minSize c))) (buf w @ b) = []
          \<or> \<not> (gw w' = None \<and> \<not> ignore w') \<and> buf w' = []
             \<and> (\<exists>rest. newCalls w w' =
                    (if code w \<noteq> 0 then [RW_WriteHeader (code w)] else [])
                    @ (if gw w' \<noteq> None
                       then [GW_New (level w), GW_Write (take (nat (max 512 (cfg_minSize c))) (buf w @ b))]
                       else if take (nat (max 512 (cfg_minSize c))) (buf w @ b) = [] then []
                            else [RW_Write (take (nat (max 512 (cfg_minSize c))) (buf w @ b))])
                    @ rest
                  \<and> (rest = []
                       \<or> drop (nat (max 512 (cfg_minSize c))) (buf w @ b) \<noteq> []
                         \<and> rest = [if gw w' \<noteq> None
                                    then GW_Write (drop (nat (max 512 (cfg_minSize c))) (buf w @ b))
                                    else RW_Write (drop (nat (max 512 (cfg_minSize c))) (buf w @ b))])
                  \<and> (snd r = None \<and> drop (nat (max 512 (cfg_minSize c))) (buf w @ b) \<noteq> []
                        \<longrightarrow> rest \<noteq> []))"
      using Write_undecided_buffer[OF u1 u2 cap W refl refl] unfolding ms .
  qed
  from w(1) b W a d show ?thesis by blast
qed

theorem undecided_write_keeps_every_byte_witness:
  "gw (newWriter witCfg Map.empty) = None \<and> \<not> ignore (newWriter witCfg Map.empty)
   \<and> (\<exists>r w'. Write witEnv (newWriter witCfg Map.empty) [1, 2] = Some (r, w')
         \<and> gw w' = None \<and> \<not> ignore w' \<and> r = (2, None) \<and> buf w' = [1, 2])
   \<and> (\<exists>w r w'. run witEnv (newWriter witCfg Map.empty) [CallWrite [1, 2]] = Some w
         \<and> gw w = None \<and> \<not> ignore w \<and> buf w = [1, 2]
         \<and> Write witEnv w (replicate 600 7) = Some (r, w')
         \<and> gw w' \<noteq> None \<and> r = (600, None) \<and> buf w' = []
         \<and> newCalls w w'
             = [GW_New 6, GW_Write ([1, 2] @ replicate 510 7), GW_Write (replicate 90 7)])"
proof -
  let ?w = "newWriter witCfg Map.empty"
  let ?b = "replicate 600 7 :: bytes"
  let ?t = "typed witEnv (buffered waitingWriter ?b)"
  from undecided_write_keeps_every_byte[of witEnv witCfg Map.empty "[]" "[1, 2]"]
  obtain r w' where W: "Write witEnv ?w [1, 2] = Some (r, w')"
    and I: "gw ?w = None \<and> \<not> ignore ?w \<and> gw w' = None \<and> \<not> ignore w'
           \<longrightarrow> r = (2, None) \<and> buf w' = buf ?w @ [1, 2]"
    by auto
  have E: "Write witEnv ?w [1, 2] = Some ((2, None), ?w\<lparr>buf := [1, 2]\<rparr>)"
    by (simp add: Write_def witCfg_def newWriter_def Let_def hlen_def hget_def hadd_def
        atoi_def intSize_def ParseInt_def)
  from W E have "gw w' = None \<and> \<not> ignore w'" by (auto simp: newWriter_def)
  with I W have A: "\<exists>r w'. Write witEnv ?w [1, 2] = Some (r, w')
         \<and> gw w' = None \<and> \<not> ignore w' \<and> r = (2, None) \<and> buf w' = [1, 2]"
    by (auto simp: newWriter_def)
  from undecided_write_keeps_every_byte[of witEnv witCfg Map.empty "[CallWrite [1, 2]]" ?b,
      unfolded run_waitingWriter, simplified option.inject simp_thms]
  obtain r2 w2 where W2: "Write witEnv waitingWriter ?b = Some (r2, w2)"
    and D: "\<not> (gw w2 = None \<and> \<not> ignore w2) \<and> buf w2 = []
             \<and> (\<exists>rest. newCalls waitingWriter w2 =
                    (if gw w2 \<noteq> None then [GW_New 6, GW_Write ([1, 2] @ replicate 510 7)]
                     else [RW_Write ([1, 2] @ replicate 510 7)]) @ rest
                  \<and> (rest = [] \<or> rest = [if gw w2 \<noteq> None then GW_Write (replicate 90 7)
                                           else RW_Write (replicate 90 7)])
                  \<and> (snd r2 = None \<longrightarrow> rest \<noteq> []))"
    by (auto simp: waitingWriter_fields witCfg_minSize split: if_splits)
  have WG: "Write witEnv waitingWriter ?b = writeGzip witEnv ?t ?b (replicate 90 7)"
    by (simp add: Write_undecided waitingWriter_fields waitingWriter_decide waitingWriter_remain)
  have sg: "fst (startGzip witEnv ?t) = None"
    by (simp add: startGzip_result waitingWriter_buffered witEnv_fields Let_def)
  have ne: "writeGzip witEnv ?t ?b (replicate 90 7) \<noteq> None" using W2 WG by simp
  have "map_option fst (writeGzip witEnv ?t ?b (replicate 90 7)) = Some (600, None)"
    by (simp add: writeGzip_result[OF ne] sg witEnv_fields)
  then have r2: "r2 = (600, None)" using W2 WG by simp
  have "map_option snd (writeGzip witEnv ?t ?b (replicate 90 7))
          = Some (snd (gw_Write witEnv (snd (startGzip witEnv ?t)) (replicate 90 7)))"
    by (simp add: writeGzip_state sg startGzip_fields waitingWriter_buffered)
  then have "w2 = snd (gw_Write witEnv (snd (startGzip witEnv ?t)) (replicate 90 7))"
    using W2 WG by simp
  then have G: "gw w2 \<noteq> None" by (simp add: startGzip_fields waitingWriter_buffered)
  from D G r2 W2 have B: "\<exists>w r w'. run witEnv ?w [CallWrite [1, 2]] = Some w
         \<and> gw w = None \<and> \<not> ignore w \<and> buf w = [1, 2]
         \<and> Write witEnv w ?b = Some (r, w')
         \<and> gw w' \<noteq> None \<and> r = (600, None) \<and> buf w' = []
         \<and> newCalls w w' = [GW_New 6, GW_Write ([1, 2] @ replicate 510 7), GW_Write (replicate 90 7)]"
    unfolding run_waitingWriter by (auto simp: waitingWriter_fields)
  from A B show ?thesis by (simp add: newWriter_fields)
qed

end
